theory Spec2Isabelle
  imports Main
begin

section \<open>The condition tracker base class (ConditionTracker.h)\<close>

subsection \<open>Types the header takes from other headers\<close>

text \<open>
  Modelled from the spec: the enum \<open>ConditionState\<close> is declared in
  \<open>condition/condition_util.h\<close>, which is not part of the examined sources. The header
  only names the enumerator \<open>kUnknown\<close>. The data model describes the value as a
  tri-state, UNKNOWN, FALSE or TRUE.
\<close>

datatype ConditionState = kUnknown | kFalse | kTrue

subsection \<open>The class\<close>

text \<open>
  The six protected members of \<open>class ConditionTracker\<close>, in declaration order.
  \<open>mName\<close> and \<open>mIndex\<close> are declared \<open>const\<close>. No arithmetic is done on
  \<open>mIndex\<close> or on the elements of \<open>mTrackerIndex\<close> (a \<open>std::set<int>\<close>), so both
  are kept as mathematical integers.
\<close>

record ConditionTracker =
  mName :: string
  mIndex :: int
  mInitialized :: bool
  mTrackerIndex :: "int set"
  mNonSlicedConditionState :: ConditionState
  mSliced :: bool

text \<open>
  The constructor \<open>ConditionTracker(const std::string& name, const int index)\<close> with its
  member initialiser list.
\<close>

definition ConditionTracker :: "string \<Rightarrow> int \<Rightarrow> ConditionTracker" where
  "ConditionTracker name index =
     \<lparr> mName = name,
       mIndex = index,
       mInitialized = False,
       mTrackerIndex = {},
       mNonSlicedConditionState = kUnknown,
       mSliced = False \<rparr>"

text \<open>
  The three member functions with a body. Each is a method on a mutable object, so each
  takes the object (any class derived from the base, hence the record scheme) and returns
  the object as the call leaves it; the two accessors also return their result.

  \<open>virtual ConditionState isConditionMet() { return mNonSlicedConditionState; }\<close>
\<close>

definition isConditionMet ::
  "'a ConditionTracker_scheme \<Rightarrow> ConditionState \<times> 'a ConditionTracker_scheme" where
  "isConditionMet this = (mNonSlicedConditionState this, this)"

text \<open>
  \<open>virtual const std::set<int>& getLogTrackerIndex() const { return mTrackerIndex; }\<close>
\<close>

definition getLogTrackerIndex ::
  "'a ConditionTracker_scheme \<Rightarrow> int set \<times> 'a ConditionTracker_scheme" where
  "getLogTrackerIndex this = (mTrackerIndex this, this)"

text \<open>
  \<open>virtual void setSliced(bool sliced) { mSliced = mSliced | sliced; }\<close>
  On \<open>bool\<close> operands the bitwise or is the logical or.
\<close>

definition setSliced :: "bool \<Rightarrow> 'a ConditionTracker_scheme \<Rightarrow> 'a ConditionTracker_scheme" where
  "setSliced sliced this = this\<lparr> mSliced := (mSliced this \<or> sliced) \<rparr>"

text \<open>A sequence of \<open>setSliced\<close> calls on one tracker, first call first.\<close>

fun setSlicedCalls :: "bool list \<Rightarrow> 'a ConditionTracker_scheme \<Rightarrow> 'a ConditionTracker_scheme" where
  "setSlicedCalls [] this = this"
| "setSlicedCalls (b # bs) this = setSlicedCalls bs (setSliced b this)"


section \<open>The operations the header leaves to derived classes\<close>

text \<open>
  \<open>init\<close>, \<open>evaluateCondition\<close> and the \<open>isConditionMet\<close> overload with
  parameters are pure virtual in the header: the class fixes their signatures and the
  comments above them, the bodies live in derived classes that are not part of the
  examined sources. Everything in this section is therefore written from the design
  text, and says so.
\<close>

subsection \<open>Configuration and node kinds\<close>

text \<open>
  Modelled from the spec: \<open>MatchingState\<close>, the element type of
  \<open>eventMatcherValues\<close>, comes from \<open>matchers/matcher_util.h\<close>. The data model
  gives a matcher verdict three values: MATCHED, NOT_MATCHED or UNKNOWN.
\<close>

datatype MatchingState = kMatched | kNotMatched | kMatchUnknown

text \<open>
  Modelled from the spec: the boolean operator of a combinational condition. The design
  names AND, OR and NOT.
\<close>

datatype LogicalOperation = opAND | opOR | opNOT

text \<open>
  Modelled from the spec: the element type \<open>Condition\<close> of \<open>allConditionConfig\<close>
  is generated from \<open>statsd_config.proto\<close>. A descriptor carries the name of the
  condition and is of one of two kinds: an atomic condition, which refers to event matchers
  by name, or a combinational one, which applies an operator to child conditions referred
  to by name.
\<close>

datatype ConditionContents =
    SimpleCondition "string list"
  | Combination LogicalOperation "string list"

record Condition =
  cname :: string
  contents :: ConditionContents

text \<open>
  Modelled from the spec: the two node kinds as a tagged variant stored with the node. The
  parent to child relation is a list of arena indices, the matchers of an atomic node a
  list of matcher indices. Both are filled in by initialization (index resolution) and
  are empty before.
\<close>

datatype Variant =
    Atomic "int list"
  | Combinational LogicalOperation "nat list"

record ConditionNode = ConditionTracker +
  mVariant :: Variant

fun initialVariant :: "ConditionContents \<Rightarrow> Variant" where
  "initialVariant (SimpleCondition ms) = Atomic []"
| "initialVariant (Combination oper cs) = Combinational oper []"

text \<open>
  Modelled from the spec: arena construction. Nodes are constructed from the
  configuration in one batch, in the order of the descriptors; the base part of each node
  is built by the constructor of the header, with the position in the arena as index.
\<close>

definition newNode :: "Condition \<Rightarrow> nat \<Rightarrow> ConditionNode" where
  "newNode c i =
     ConditionTracker.extend (ConditionTracker (cname c) (int i))
       (ConditionNode.fields (initialVariant (contents c)))"

definition buildArena :: "Condition list \<Rightarrow> ConditionNode list" where
  "buildArena cfg = map (\<lambda>(i, c). newNode c i) (enumerate 0 cfg)"

subsection \<open>init\<close>

text \<open>
  Modelled from the spec: name resolution. \<open>conditionNameIndexMap\<close> is a
  \<open>std::unordered_map<std::string, int>\<close>. A name that is not in the map does not
  resolve. An index outside the arena is treated in the same way, so that no list is read
  out of range.
\<close>

definition resolveCondition :: "(string \<rightharpoonup> int) \<Rightarrow> nat \<Rightarrow> string \<Rightarrow> nat option" where
  "resolveCondition conditionNameIndexMap n child =
     (case conditionNameIndexMap child of
        None \<Rightarrow> None
      | Some j \<Rightarrow> if 0 \<le> j \<and> j < int n then Some (nat j) else None)"

text \<open>
  Modelled from the spec: the matcher names of an atomic condition resolve through a
  table from matcher name to matcher index; one unknown name makes the whole resolution
  fail. The signature of \<open>init\<close> has no such table, it is a parameter of the model.
\<close>

fun resolveMatchers :: "(string \<rightharpoonup> int) \<Rightarrow> string list \<Rightarrow> int list option" where
  "resolveMatchers mm [] = Some []"
| "resolveMatchers mm (m # ms) =
     (case mm m of
        None \<Rightarrow> None
      | Some k \<Rightarrow> (case resolveMatchers mm ms of None \<Rightarrow> None | Some ks \<Rightarrow> Some (k # ks)))"

text \<open>
  Modelled from the spec: the last step of a successful initialization of one node:
  aggregate the matcher indices into the node's own set and set \<open>initialized\<close>.
\<close>

definition finishInit :: "Variant \<Rightarrow> int set \<Rightarrow> ConditionNode \<Rightarrow> ConditionNode" where
  "finishInit v used this =
     this\<lparr> mInitialized := True, mTrackerIndex := mTrackerIndex this \<union> used, mVariant := v \<rparr>"

text \<open>
  The state the recursion threads: the arena \<open>allConditionTrackers\<close> (the vector is
  const, the trackers it points to are not) and the marker array \<open>stack\<close>.
\<close>

type_synonym InitState = "ConditionNode list \<times> bool list"

text \<open>
  Modelled from the spec: duplicate index assignment, the third failure condition of
  initialization. The arena gives the condition at position \<open>j\<close> the index \<open>j\<close>.
  The index is assigned a second time when \<open>conditionNameIndexMap\<close> gives \<open>j\<close> to
  a name other than the name of the condition at \<open>j\<close>.
\<close>

definition duplicateIndex :: "Condition list \<Rightarrow> (string \<rightharpoonup> int) \<Rightarrow> string \<Rightarrow> bool" where
  "duplicateIndex cfg cm name =
     (case resolveCondition cm (length cfg) name of
        None \<Rightarrow> False
      | Some j \<Rightarrow> cname (cfg ! j) \<noteq> name)"

text \<open>
  Modelled from the spec: \<open>init\<close> for the node at index \<open>i\<close>, a depth-first
  traversal. The node marks its own slot of \<open>stack\<close> as on the current path. Before
  descending into a dependency at index \<open>j\<close> it checks the marker at \<open>j\<close>; a
  marked \<open>j\<close> is a cycle and fails at once. Only after all dependencies have
  returned success does it aggregate their matcher indices, clear its mark and set
  \<open>initialized\<close>. The three failure conditions of the design are the three ways to
  return \<open>false\<close>: a referenced name that does not resolve, a dependency cycle, and
  a duplicate index assignment, checked for the node's own name and for every child name.
  A failure is propagated upward as it is. The result is the \<open>bool\<close> of the
  signature with the state left behind.

  The first argument bounds the depth of the recursion; \<open>None\<close> means that the bound
  was reached before the call returned. \<open>init_returns\<close> below shows that a bound
  above the arena size is never reached.
\<close>

fun init :: "nat \<Rightarrow> Condition list \<Rightarrow> (string \<rightharpoonup> int) \<Rightarrow> (string \<rightharpoonup> int) \<Rightarrow> nat \<Rightarrow> InitState
               \<Rightarrow> (bool \<times> InitState) option"
and initChildren :: "nat \<Rightarrow> Condition list \<Rightarrow> (string \<rightharpoonup> int) \<Rightarrow> (string \<rightharpoonup> int) \<Rightarrow> string list
               \<Rightarrow> InitState \<Rightarrow> (bool \<times> InitState) option"
where
  "init 0 cfg cm mm i st = None"
| "init (Suc fuel) cfg cm mm i (trackers, stack) =
    (if \<not> (i < length cfg \<and> i < length trackers \<and> i < length stack)
     then Some (False, (trackers, stack))
     else if duplicateIndex cfg cm (cname (cfg ! i))
     then Some (False, (trackers, stack))
     else
       (case contents (cfg ! i) of
          SimpleCondition ms \<Rightarrow>
            (case resolveMatchers mm ms of
               None \<Rightarrow> Some (False, (trackers, stack[i := True]))
             | Some ks \<Rightarrow>
                 Some (True, (trackers[i := finishInit (Atomic ks) (set ks) (trackers ! i)],
                              stack[i := False])))
        | Combination oper cs \<Rightarrow>
            (case initChildren fuel cfg cm mm cs (trackers, stack[i := True]) of
               None \<Rightarrow> None
             | Some (False, st') \<Rightarrow> Some (False, st')
             | Some (True, (trackers', stack')) \<Rightarrow>
                 (let children = List.map_filter (resolveCondition cm (length trackers')) cs
                  in Some (True,
                       (trackers'[i := finishInit (Combinational oper children)
                                         (\<Union>j \<in> set children. mTrackerIndex (trackers' ! j))
                                         (trackers' ! i)],
                        stack'[i := False]))))))"
| "initChildren fuel cfg cm mm [] st = Some (True, st)"
| "initChildren fuel cfg cm mm (c # cs) (trackers, stack) =
    (case resolveCondition cm (length trackers) c of
       None \<Rightarrow> Some (False, (trackers, stack))
     | Some j \<Rightarrow>
         if duplicateIndex cfg cm c then Some (False, (trackers, stack))
         else if \<not> j < length stack \<or> stack ! j then Some (False, (trackers, stack))
         else (case init fuel cfg cm mm j (trackers, stack) of
                 None \<Rightarrow> None
               | Some (False, st') \<Rightarrow> Some (False, st')
               | Some (True, st') \<Rightarrow> initChildren fuel cfg cm mm cs st'))"

text \<open>
  Modelled from the spec: the batch. Nodes are initialized one after the other in arena
  order, and the first failure fails the whole batch. There is no partial-success mode:
  a failed batch leaves every node with \<open>initialized = false\<close>, so the arena and the
  marker array are handed back as the batch received them (\<open>st0\<close>). The arena is
  freshly built and the marker array is arena-sized and clear.
\<close>

fun initAll :: "Condition list \<Rightarrow> (string \<rightharpoonup> int) \<Rightarrow> (string \<rightharpoonup> int) \<Rightarrow> InitState \<Rightarrow> nat list
               \<Rightarrow> InitState \<Rightarrow> (bool \<times> InitState) option" where
  "initAll cfg cm mm st0 [] st = Some (True, st)"
| "initAll cfg cm mm st0 (i # rest) st =
     (case init (Suc (length (fst st))) cfg cm mm i st of
        None \<Rightarrow> None
      | Some (False, st') \<Rightarrow> Some (False, st0)
      | Some (True, st') \<Rightarrow> initAll cfg cm mm st0 rest st')"

definition initConditions ::
  "Condition list \<Rightarrow> (string \<rightharpoonup> int) \<Rightarrow> (string \<rightharpoonup> int) \<Rightarrow> (bool \<times> InitState) option" where
  "initConditions cfg cm mm =
     initAll cfg cm mm (buildArena cfg, replicate (length cfg) False) [0..<length cfg]
       (buildArena cfg, replicate (length cfg) False)"

subsection \<open>evaluateCondition\<close>

text \<open>
  Modelled from the spec: the update rules of the two node kinds are outside the core
  and left open by the design; it only fixes that an atomic node's new state is a
  deterministic function of the matcher verdicts and the node's own prior state, and a
  combinational node's a function of the cache entries of its children under its
  operator. Both rules are parameters.
\<close>

type_synonym SimpleRule = "ConditionNode \<Rightarrow> MatchingState list \<Rightarrow> ConditionState"
type_synonym CombinationRule = "LogicalOperation \<Rightarrow> ConditionState list \<Rightarrow> ConditionState"

text \<open>
  The state of a pass: the arena, \<open>conditionCache\<close> and \<open>conditionChanged\<close>.
\<close>

type_synonym EvalState = "ConditionNode list \<times> ConditionState list \<times> bool list"

text \<open>
  Modelled from the spec: \<open>evaluateCondition\<close> for the node at index \<open>i\<close>. The new
  state is computed by the rule of the node's kind and written to the node's aggregate
  state and to its slot of the cache; the change flag of the node is set if and only if
  the new value differs from the value the slot held before the call.

  The design makes three situations contract violations with no defined outcome:
  evaluating a node that was never initialized, an index out of range, and a
  combinational node that refers to a child whose slot has not been written in the
  current pass. In each the model has no result (\<open>None\<close>). To decide the third,
  the call is told which slots the current pass has written so far (\<open>written\<close>).

  The comment of the header on \<open>conditionChanged\<close> adds that a condition with
  dimension reports a change of any of its sub conditions. The state per slice is owned
  by the derived classes and is no part of the contract the design gives for the flag;
  the model follows the design. The log event of the signature is not an input of
  either rule in the design and is left out.
\<close>

definition evaluateCondition ::
  "SimpleRule \<Rightarrow> CombinationRule \<Rightarrow> MatchingState list \<Rightarrow> nat set \<Rightarrow> nat \<Rightarrow> EvalState
     \<Rightarrow> EvalState option" where
  "evaluateCondition sr cr eventMatcherValues written i st =
     (case st of (trackers, conditionCache, conditionChanged) \<Rightarrow>
        if \<not> (i < length trackers \<and> i < length conditionCache \<and> i < length conditionChanged)
        then None
        else if \<not> mInitialized (trackers ! i) then None
        else
          (case (case mVariant (trackers ! i) of
                   Atomic ks \<Rightarrow> Some (sr (trackers ! i) eventMatcherValues)
                 | Combinational oper children \<Rightarrow>
                     if list_all (\<lambda>c. c < length trackers \<and> c < length conditionCache
                                       \<and> c \<in> written) children
                     then Some (cr oper (map (\<lambda>c. conditionCache ! c) children))
                     else None) of
             None \<Rightarrow> None
           | Some newState \<Rightarrow>
               Some (trackers[i := (trackers ! i)\<lparr> mNonSlicedConditionState := newState \<rparr>],
                     conditionCache[i := newState],
                     conditionChanged[i := (newState \<noteq> conditionCache ! i)])))"

text \<open>
  Modelled from the spec: one pass drives every node strictly in index order, and
  starts with no slot written.
\<close>

fun evaluateNodes ::
  "SimpleRule \<Rightarrow> CombinationRule \<Rightarrow> MatchingState list \<Rightarrow> nat set \<Rightarrow> nat list \<Rightarrow> EvalState
     \<Rightarrow> EvalState option" where
  "evaluateNodes sr cr eventMatcherValues written [] st = Some st"
| "evaluateNodes sr cr eventMatcherValues written (i # rest) st =
     (case evaluateCondition sr cr eventMatcherValues written i st of
        None \<Rightarrow> None
      | Some st' \<Rightarrow> evaluateNodes sr cr eventMatcherValues (insert i written) rest st')"

definition evaluatePass ::
  "SimpleRule \<Rightarrow> CombinationRule \<Rightarrow> MatchingState list \<Rightarrow> EvalState \<Rightarrow> EvalState option" where
  "evaluatePass sr cr eventMatcherValues st =
     evaluateNodes sr cr eventMatcherValues {} [0..<length (fst st)] st"

text \<open>
  A sequence of passes, one per event; the cache is carried forward from pass to pass.
  \<open>evaluatePasses\<close> returns the state after the last pass, \<open>replay\<close> the snapshot
  of cache and change flags taken after each pass.
\<close>

fun evaluatePasses ::
  "SimpleRule \<Rightarrow> CombinationRule \<Rightarrow> MatchingState list list \<Rightarrow> EvalState \<Rightarrow> EvalState option" where
  "evaluatePasses sr cr [] st = Some st"
| "evaluatePasses sr cr (v # vs) st =
     (case evaluatePass sr cr v st of
        None \<Rightarrow> None
      | Some st' \<Rightarrow> evaluatePasses sr cr vs st')"

fun replay ::
  "SimpleRule \<Rightarrow> CombinationRule \<Rightarrow> MatchingState list list \<Rightarrow> EvalState
     \<Rightarrow> (ConditionState list \<times> bool list) list option" where
  "replay sr cr [] st = Some []"
| "replay sr cr (v # vs) st =
     (case evaluatePass sr cr v st of
        None \<Rightarrow> None
      | Some st' \<Rightarrow>
          (case replay sr cr vs st' of
             None \<Rightarrow> None
           | Some snapshots \<Rightarrow> Some (snd st' # snapshots)))"

text \<open>
  Modelled from the spec: the life of one configuration. The arena is built and
  initialized once; when initialization fails the configuration is rejected as a whole and
  no pass is run. Otherwise callers declare which conditions they need per dimension, by
  \<open>setSliced\<close> on the nodes (here one call per node, with the flag given for it),
  and every event is evaluated by one pass. Before the first event every state is
  UNKNOWN; the change flags are a caller-provided, arena-sized array.
\<close>

datatype Failure = ConfigRejected | NoResult

definition freshEvalState :: "ConditionNode list \<Rightarrow> bool list \<Rightarrow> EvalState" where
  "freshEvalState trackers changed0 = (trackers, replicate (length trackers) kUnknown, changed0)"

definition markSliced :: "bool list \<Rightarrow> ConditionNode list \<Rightarrow> ConditionNode list" where
  "markSliced flags trackers = map (\<lambda>(b, this). setSliced b this) (zip flags trackers)"

definition processEvents ::
  "SimpleRule \<Rightarrow> CombinationRule \<Rightarrow> Condition list \<Rightarrow> (string \<rightharpoonup> int) \<Rightarrow> (string \<rightharpoonup> int)
     \<Rightarrow> bool list \<Rightarrow> bool list \<Rightarrow> MatchingState list list
     \<Rightarrow> Failure + (ConditionState list \<times> bool list) list" where
  "processEvents sr cr cfg cm mm sliced changed0 events =
     (case initConditions cfg cm mm of
        None \<Rightarrow> Inl NoResult
      | Some (False, st) \<Rightarrow> Inl ConfigRejected
      | Some (True, (trackers, stack)) \<Rightarrow>
          (case replay sr cr events (freshEvalState (markSliced sliced trackers) changed0) of
             None \<Rightarrow> Inl NoResult
           | Some snapshots \<Rightarrow> Inr snapshots))"

subsection \<open>The query with parameters\<close>

text \<open>
  Modelled from the spec: a dimension key is an ordered tuple of field-value pairs,
  compared structurally.
\<close>

type_synonym HashableDimensionKey = "(string \<times> string) list"

text \<open>
  Modelled from the spec: how an atomic node answers for one slice is not fixed by the
  design; it is a parameter, a function of the node and of the key the query supplies for
  the node's name (if any).
\<close>

type_synonym SlicedRule = "ConditionNode \<Rightarrow> HashableDimensionKey option \<Rightarrow> ConditionState"

type_synonym QueryState = "ConditionNode list \<times> ConditionState list"

text \<open>
  Modelled from the spec: \<open>isConditionMet(conditionParameters, allConditions,
  conditionCache)\<close> for the node at index \<open>i\<close>. The signature returns \<open>void\<close>:
  the answer is left in the node's slot of \<open>conditionCache\<close>. The query evaluates
  recursively from the queried node down to the atomic nodes, each step under the supplied
  parameters; a combinational node first queries its children and then applies its
  operator to their cache slots. The arena is threaded through to make visible what the
  query does to it. Querying a node that is not initialized, and an index out of
  range, are contract violations (\<open>None\<close>); the first argument bounds the depth of the
  recursion as for \<open>init\<close>.
\<close>

fun isConditionMetSliced ::
  "nat \<Rightarrow> SlicedRule \<Rightarrow> CombinationRule \<Rightarrow> (string \<rightharpoonup> HashableDimensionKey) \<Rightarrow> nat \<Rightarrow> QueryState
     \<Rightarrow> QueryState option"
and queryChildren ::
  "nat \<Rightarrow> SlicedRule \<Rightarrow> CombinationRule \<Rightarrow> (string \<rightharpoonup> HashableDimensionKey) \<Rightarrow> nat list \<Rightarrow> QueryState
     \<Rightarrow> QueryState option"
where
  "isConditionMetSliced 0 slr cr conditionParameters i st = None"
| "isConditionMetSliced (Suc fuel) slr cr conditionParameters i (trackers, conditionCache) =
    (if \<not> (i < length trackers \<and> i < length conditionCache) then None
     else if \<not> mInitialized (trackers ! i) then None
     else
       (case mVariant (trackers ! i) of
          Atomic ks \<Rightarrow>
            Some (trackers,
                  conditionCache[i := slr (trackers ! i) (conditionParameters (mName (trackers ! i)))])
        | Combinational oper children \<Rightarrow>
            (case queryChildren fuel slr cr conditionParameters children (trackers, conditionCache) of
               None \<Rightarrow> None
             | Some (trackers', cache') \<Rightarrow>
                 if i < length cache' \<and> list_all (\<lambda>c. c < length cache') children
                 then Some (trackers', cache'[i := cr oper (map (\<lambda>c. cache' ! c) children)])
                 else None)))"
| "queryChildren fuel slr cr conditionParameters [] st = Some st"
| "queryChildren fuel slr cr conditionParameters (c # cs) st =
    (case isConditionMetSliced fuel slr cr conditionParameters c st of
       None \<Rightarrow> None
     | Some st' \<Rightarrow> queryChildren fuel slr cr conditionParameters cs st')"

text \<open>The query called \<open>k\<close> times in a row on the same node with the same parameters.\<close>

fun isConditionMetSlicedTimes ::
  "nat \<Rightarrow> SlicedRule \<Rightarrow> CombinationRule \<Rightarrow> (string \<rightharpoonup> HashableDimensionKey) \<Rightarrow> nat \<Rightarrow> QueryState
     \<Rightarrow> QueryState option" where
  "isConditionMetSlicedTimes 0 slr cr conditionParameters i st = Some st"
| "isConditionMetSlicedTimes (Suc k) slr cr conditionParameters i st =
     (case isConditionMetSliced (Suc (length (fst st))) slr cr conditionParameters i st of
        None \<Rightarrow> None
      | Some st' \<Rightarrow> isConditionMetSlicedTimes k slr cr conditionParameters i st')"

subsection \<open>The dependency graph of a configuration\<close>

text \<open>
  The notions the properties below are stated with: the names of the child conditions of
  a descriptor, the indices they resolve to, the resulting edge relation on arena indices,
  and the matcher indices a descriptor refers to directly.
\<close>

fun childNames :: "ConditionContents \<Rightarrow> string list" where
  "childNames (SimpleCondition ms) = []"
| "childNames (Combination oper cs) = cs"

definition dependsOn :: "Condition list \<Rightarrow> (string \<rightharpoonup> int) \<Rightarrow> nat \<Rightarrow> nat list" where
  "dependsOn cfg cm i =
     List.map_filter (resolveCondition cm (length cfg)) (childNames (contents (cfg ! i)))"

definition dependencyGraph :: "Condition list \<Rightarrow> (string \<rightharpoonup> int) \<Rightarrow> (nat \<times> nat) set" where
  "dependencyGraph cfg cm = {(i, j). i < length cfg \<and> j \<in> set (dependsOn cfg cm i)}"

definition hasCycle :: "Condition list \<Rightarrow> (string \<rightharpoonup> int) \<Rightarrow> bool" where
  "hasCycle cfg cm = (\<exists>i. (i, i) \<in> (dependencyGraph cfg cm)\<^sup>+)"

definition reachesCycle :: "Condition list \<Rightarrow> (string \<rightharpoonup> int) \<Rightarrow> nat \<Rightarrow> bool" where
  "reachesCycle cfg cm i =
     (\<exists>k. (i, k) \<in> (dependencyGraph cfg cm)\<^sup>* \<and> (k, k) \<in> (dependencyGraph cfg cm)\<^sup>+)"

text \<open>
  The matcher indices a descriptor refers to directly: the indices the matcher table
  gives for the matcher names of an atomic condition.
\<close>

fun ownMatchers :: "(string \<rightharpoonup> int) \<Rightarrow> ConditionContents \<Rightarrow> int set" where
  "ownMatchers mm (SimpleCondition ms) = (\<Union>m \<in> set ms. set_option (mm m))"
| "ownMatchers mm (Combination oper cs) = {}"

text \<open>
  The children a descriptor names: the conditions that carry one of its child names, at
  the index the name-to-index map gives for that name.
\<close>

definition namedChildren :: "Condition list \<Rightarrow> (string \<rightharpoonup> int) \<Rightarrow> nat \<Rightarrow> nat list" where
  "namedChildren cfg cm i =
     filter (\<lambda>j. list_ex (\<lambda>c. cm c = Some (int j) \<and> cname (cfg ! j) = c)
                   (childNames (contents (cfg ! i))))
       [0..<length cfg]"

text \<open>
  A configuration is fully name-resolvable when every matcher name and every child name
  in it resolves. No index is assigned twice when neither the name of a condition nor a
  child name is a duplicate assignment. The indices are in topological order when every
  child has a smaller index than its parent.
\<close>

fun namesResolve :: "(string \<rightharpoonup> int) \<Rightarrow> (string \<rightharpoonup> int) \<Rightarrow> nat \<Rightarrow> ConditionContents \<Rightarrow> bool" where
  "namesResolve cm mm n (SimpleCondition ms) = (resolveMatchers mm ms \<noteq> None)"
| "namesResolve cm mm n (Combination oper cs) = list_all (\<lambda>c. resolveCondition cm n c \<noteq> None) cs"

definition fullyResolvable :: "Condition list \<Rightarrow> (string \<rightharpoonup> int) \<Rightarrow> (string \<rightharpoonup> int) \<Rightarrow> bool" where
  "fullyResolvable cfg cm mm = list_all (\<lambda>c. namesResolve cm mm (length cfg) (contents c)) cfg"

definition noDuplicateIndex :: "Condition list \<Rightarrow> (string \<rightharpoonup> int) \<Rightarrow> bool" where
  "noDuplicateIndex cfg cm =
     list_all (\<lambda>d. \<not> duplicateIndex cfg cm (cname d)
                   \<and> list_all (\<lambda>c. \<not> duplicateIndex cfg cm c) (childNames (contents d))) cfg"



subsection \<open>Notions used in the proofs about initialization\<close>

text \<open>
  What \<open>init\<close> leaves alone in every node: name, index, aggregate state and sliced
  flag; and \<open>initialized\<close> is never taken back.
\<close>

definition initFrame :: "InitState \<Rightarrow> InitState \<Rightarrow> bool" where
  "initFrame st st' =
     (\<forall>k. mName (fst st' ! k) = mName (fst st ! k)
        \<and> mIndex (fst st' ! k) = mIndex (fst st ! k)
        \<and> mNonSlicedConditionState (fst st' ! k) = mNonSlicedConditionState (fst st ! k)
        \<and> mSliced (fst st' ! k) = mSliced (fst st ! k)
        \<and> (mInitialized (fst st ! k) \<longrightarrow> mInitialized (fst st' ! k)))"

text \<open>The number of slots of the marker array that are not marked.\<close>

definition unmarked :: "bool list \<Rightarrow> nat" where
  "unmarked s = card {k. k < length s \<and> \<not> s ! k}"

text \<open>
  What a successfully initialized node looks like: its names resolve, neither its own
  name nor a child name is a duplicate index assignment, its variant holds
  the resolved indices, its matcher set is the union of its own matchers and those of its
  children, its children are initialized, and no cycle can be reached from it. The
  invariant of initialization: every initialized node looks like that, every other node
  has an empty matcher set.
\<close>

definition resolvedVariant :: "Condition list \<Rightarrow> (string \<rightharpoonup> int) \<Rightarrow> (string \<rightharpoonup> int) \<Rightarrow> nat \<Rightarrow> Variant" where
  "resolvedVariant cfg cm mm i =
     (case contents (cfg ! i) of
        SimpleCondition ms \<Rightarrow> Atomic (case resolveMatchers mm ms of None \<Rightarrow> [] | Some ks \<Rightarrow> ks)
      | Combination oper cs \<Rightarrow> Combinational oper (dependsOn cfg cm i))"

definition nodeResolved ::
  "Condition list \<Rightarrow> (string \<rightharpoonup> int) \<Rightarrow> (string \<rightharpoonup> int) \<Rightarrow> ConditionNode list \<Rightarrow> nat \<Rightarrow> bool" where
  "nodeResolved cfg cm mm t i =
     (namesResolve cm mm (length cfg) (contents (cfg ! i))
      \<and> \<not> duplicateIndex cfg cm (cname (cfg ! i))
      \<and> list_all (\<lambda>c. \<not> duplicateIndex cfg cm c) (childNames (contents (cfg ! i)))
      \<and> mVariant (t ! i) = resolvedVariant cfg cm mm i
      \<and> mTrackerIndex (t ! i) =
          ownMatchers mm (contents (cfg ! i))
            \<union> (\<Union>j \<in> set (dependsOn cfg cm i). mTrackerIndex (t ! j))
      \<and> (\<forall>j \<in> set (dependsOn cfg cm i). mInitialized (t ! j))
      \<and> \<not> reachesCycle cfg cm i)"

definition initInvariant ::
  "Condition list \<Rightarrow> (string \<rightharpoonup> int) \<Rightarrow> (string \<rightharpoonup> int) \<Rightarrow> ConditionNode list \<Rightarrow> bool" where
  "initInvariant cfg cm mm t =
     (length t = length cfg
      \<and> (\<forall>i < length cfg. if mInitialized (t ! i) then nodeResolved cfg cm mm t i
                           else mTrackerIndex (t ! i) = {}))"

text \<open>A marker array with no mark.\<close>

definition clearStack :: "bool list \<Rightarrow> bool" where
  "clearStack s = (\<forall>k < length s. \<not> s ! k)"

subsection \<open>Notions used in the proofs about evaluation and the query\<close>

text \<open>
  An arena as successful initialization leaves it: every node is initialized, holds its
  resolved variant, and reaches no cycle. The invariant of evaluation: such an arena with
  a cache and change flags of arena size.
\<close>

definition wellFormedArena ::
  "Condition list \<Rightarrow> (string \<rightharpoonup> int) \<Rightarrow> (string \<rightharpoonup> int) \<Rightarrow> ConditionNode list \<Rightarrow> bool" where
  "wellFormedArena cfg cm mm t =
     (length t = length cfg
      \<and> (\<forall>i < length cfg. mInitialized (t ! i) \<and> mVariant (t ! i) = resolvedVariant cfg cm mm i
                            \<and> \<not> reachesCycle cfg cm i))"

definition evalInvariant ::
  "Condition list \<Rightarrow> (string \<rightharpoonup> int) \<Rightarrow> (string \<rightharpoonup> int) \<Rightarrow> EvalState \<Rightarrow> bool" where
  "evalInvariant cfg cm mm st =
     (case st of (t, cache, changed) \<Rightarrow>
        wellFormedArena cfg cm mm t \<and> length cache = length cfg \<and> length changed = length cfg)"

text \<open>
  A cache with the slots in \<open>W\<close> overwritten by the values \<open>g\<close> gives them: the
  shape of what a query leaves behind.
\<close>

definition overrideCache ::
  "ConditionState list \<Rightarrow> nat set \<Rightarrow> (nat \<Rightarrow> ConditionState) \<Rightarrow> ConditionState list" where
  "overrideCache c W g = map (\<lambda>k. if k \<in> W then g k else c ! k) [0..<length c]"

text \<open>
  For a given arena, node and depth bound, the query either has no result on any cache of
  arena size, or it overwrites a fixed set of slots, the node's own among them, with
  fixed values, whatever the cache held.
\<close>

definition queryShape ::
  "ConditionNode list \<Rightarrow> (ConditionState list \<Rightarrow> QueryState option) \<Rightarrow> nat set \<Rightarrow> bool" where
  "queryShape t q must =
     ((\<forall>c. length c = length t \<longrightarrow> q c = None)
      \<or> (\<exists>W g. must \<subseteq> W \<and> (\<forall>c. length c = length t \<longrightarrow> q c = Some (t, overrideCache c W g))))"

subsection \<open>Example configurations\<close>

text \<open>
  The scenario of the design: N0 atomic on matcher M0, N1 = NOT N0, N2 = N1 AND N0; and a
  configuration with an atomic node N0 and two nodes N1 and N2 that depend on each other.
\<close>

definition exampleConfig :: "Condition list" where
  "exampleConfig =
     [\<lparr>cname = ''N0'', contents = SimpleCondition [''M0'']\<rparr>,
      \<lparr>cname = ''N1'', contents = Combination opNOT [''N0'']\<rparr>,
      \<lparr>cname = ''N2'', contents = Combination opAND [''N1'', ''N0'']\<rparr>]"

definition exampleConditionMap :: "string \<rightharpoonup> int" where
  "exampleConditionMap = [''N0'' \<mapsto> 0, ''N1'' \<mapsto> 1, ''N2'' \<mapsto> 2]"

definition exampleMatcherMap :: "string \<rightharpoonup> int" where
  "exampleMatcherMap = [''M0'' \<mapsto> 0]"


text \<open>
  A configuration whose name-to-index map assigns the index 0 twice, to N0 and to N1: N0
  atomic on matcher M0, N1 atomic on matcher M1, N2 = NOT N1.
\<close>

definition duplicateConfig :: "Condition list" where
  "duplicateConfig =
     [\<lparr>cname = ''N0'', contents = SimpleCondition [''M0'']\<rparr>,
      \<lparr>cname = ''N1'', contents = SimpleCondition [''M1'']\<rparr>,
      \<lparr>cname = ''N2'', contents = Combination opNOT [''N1'']\<rparr>]"

definition duplicateConditionMap :: "string \<rightharpoonup> int" where
  "duplicateConditionMap = [''N0'' \<mapsto> 0, ''N1'' \<mapsto> 0, ''N2'' \<mapsto> 2]"

definition duplicateMatcherMap :: "string \<rightharpoonup> int" where
  "duplicateMatcherMap = [''M0'' \<mapsto> 0, ''M1'' \<mapsto> 1]"

text \<open>
  The rules of the scenario of the design: an atomic node is true when its matcher is
  MATCHED; NOT, AND and OR over tri-state operands.
\<close>

definition exampleSimpleRule :: SimpleRule where
  "exampleSimpleRule this v =
     (case mVariant this of
        Atomic (k # ks) \<Rightarrow>
          if 0 \<le> k \<and> nat k < length v \<and> v ! nat k = kMatched then kTrue else kFalse
      | _ \<Rightarrow> kUnknown)"

fun exampleCombinationRule :: CombinationRule where
  "exampleCombinationRule opNOT [kTrue] = kFalse"
| "exampleCombinationRule opNOT [kFalse] = kTrue"
| "exampleCombinationRule opNOT xs = kUnknown"
| "exampleCombinationRule opAND xs =
     (if kFalse \<in> set xs then kFalse else if kUnknown \<in> set xs then kUnknown else kTrue)"
| "exampleCombinationRule opOR xs =
     (if kTrue \<in> set xs then kTrue else if kUnknown \<in> set xs then kUnknown else kFalse)"

text \<open>The arena of the example as initialization leaves it.\<close>

definition exampleArena :: "ConditionNode list" where
  "exampleArena =
       [\<lparr>mName = ''N0'', mIndex = 0, mInitialized = True, mTrackerIndex = {0},
          mNonSlicedConditionState = kUnknown, mSliced = False, mVariant = Atomic [0]\<rparr>,
        \<lparr>mName = ''N1'', mIndex = 1, mInitialized = True, mTrackerIndex = {0},
          mNonSlicedConditionState = kUnknown, mSliced = False,
          mVariant = Combinational opNOT [0]\<rparr>,
        \<lparr>mName = ''N2'', mIndex = 2, mInitialized = True, mTrackerIndex = {0},
          mNonSlicedConditionState = kUnknown, mSliced = False,
          mVariant = Combinational opAND [1, 0]\<rparr>]"

subsection \<open>The example scenario\<close>

text \<open>
  The arena of the example with N0 declared sliced, after one event on which M0 matched.
\<close>

definition slicedArenaAfterEvent :: "ConditionNode list" where
  "slicedArenaAfterEvent =
     [(exampleArena ! 0)\<lparr> mNonSlicedConditionState := kTrue, mSliced := True \<rparr>,
      (exampleArena ! 1)\<lparr> mNonSlicedConditionState := kFalse \<rparr>,
      (exampleArena ! 2)\<lparr> mNonSlicedConditionState := kFalse \<rparr>]"

text \<open>
  A rule for the slices of the example: an atomic node holds for the slice with uid 7,
  does not hold for any other slice, and is unknown when the query names no slice for it.
\<close>

definition exampleSlicedRule :: SlicedRule where
  "exampleSlicedRule this key =
     (if key = Some [(''uid'', ''7'')] then kTrue else if key = None then kUnknown else kFalse)"


section \<open>Properties of the base class\<close>

lemma setSlicedCalls_mSliced:
  "mSliced (setSlicedCalls bs this) = (mSliced this \<or> (\<exists>b \<in> set bs. b))"
  by (induction bs arbitrary: this) (auto simp: setSliced_def)

lemma setSlicedCalls_append:
  "setSlicedCalls (bs @ cs) this = setSlicedCalls cs (setSlicedCalls bs this)"
  by (induction bs arbitrary: this) simp_all

text \<open>
  C8. A freshly constructed tracker, whatever its name and index, has the aggregate state
  UNKNOWN, is not initialized, is not sliced and uses no matcher; asking it for its
  condition before any event is evaluated yields UNKNOWN.
\<close>

theorem C8_fresh_tracker:
  "mNonSlicedConditionState (ConditionTracker name index) = kUnknown
   \<and> mInitialized (ConditionTracker name index) = False
   \<and> mSliced (ConditionTracker name index) = False
   \<and> mTrackerIndex (ConditionTracker name index) = {}
   \<and> fst (isConditionMet (ConditionTracker name index)) = kUnknown"
  by (simp add: ConditionTracker_def isConditionMet_def)

text \<open>
  C7. The argument-free \<open>isConditionMet()\<close> returns exactly the aggregate state of the
  tracker and leaves the tracker as it was, so a second call right after the first
  returns the same value.
\<close>

theorem C7_isConditionMet_pure_read:
  "fst (isConditionMet this) = mNonSlicedConditionState this
   \<and> snd (isConditionMet this) = this
   \<and> fst (isConditionMet (snd (isConditionMet this))) = fst (isConditionMet this)"
  by (simp add: isConditionMet_def)

text \<open>
  C10. \<open>getLogTrackerIndex()\<close> has a result on every tracker, initialized or not, namely
  the member \<open>mTrackerIndex\<close>; on a freshly constructed tracker that is the empty set;
  and the call leaves the tracker as it was.
\<close>

theorem C10_getLogTrackerIndex:
  "fst (getLogTrackerIndex this) = mTrackerIndex this
   \<and> snd (getLogTrackerIndex this) = this
   \<and> mInitialized (ConditionTracker name index) = False
   \<and> fst (getLogTrackerIndex (ConditionTracker name index)) = {}"
  by (simp add: getLogTrackerIndex_def ConditionTracker_def)

text \<open>
  C4. \<open>setSliced(b)\<close> sets the flag to the disjunction of its previous value and
  \<open>b\<close>, for either value of \<open>b\<close> and of the flag. Across any sequence of calls the
  flag is monotonic: if it is observed true after some calls, it is still true after any
  further calls.
\<close>

theorem C4_setSliced_monotonic_or:
  "mSliced (setSliced b this) = (mSliced this \<or> b)
   \<and> (mSliced (setSlicedCalls bs this) \<longrightarrow> mSliced (setSlicedCalls (bs @ cs) this))"
  by (simp add: setSliced_def setSlicedCalls_append setSlicedCalls_mSliced)

theorem C4_setSliced_monotonic_or_witness:
  "mSliced (setSlicedCalls [False, True] (ConditionTracker ''screen_on'' 0))
   \<and> mSliced (setSlicedCalls ([False, True] @ [False, False]) (ConditionTracker ''screen_on'' 0))"
  using C4_setSliced_monotonic_or
    [of False "ConditionTracker ''screen_on'' 0" "[False, True]" "[False, False]"]
  by (simp add: setSliced_def ConditionTracker_def)

section \<open>Properties of initialization\<close>

subsection \<open>Case analysis of the recursion\<close>

text \<open>
  The ways in which \<open>init\<close> on a node, and the loop over its children, can return.
\<close>

lemma init_SucE:
  assumes "init (Suc fuel) cfg cm mm i (t, s) = Some (b, st')"
  obtains
    (range) "\<not> (i < length cfg \<and> i < length t \<and> i < length s)" "\<not> b" "st' = (t, s)"
  | (duplicate) "i < length cfg" "i < length t" "i < length s"
      "duplicateIndex cfg cm (cname (cfg ! i))" "\<not> b" "st' = (t, s)"
  | (unresolved) ms where "i < length cfg" "i < length t" "i < length s"
      "contents (cfg ! i) = SimpleCondition ms" "resolveMatchers mm ms = None"
      "\<not> b" "st' = (t, s[i := True])" "\<not> duplicateIndex cfg cm (cname (cfg ! i))"
  | (atomic) ms ks where "i < length cfg" "i < length t" "i < length s"
      "contents (cfg ! i) = SimpleCondition ms" "resolveMatchers mm ms = Some ks"
      "b" "st' = (t[i := finishInit (Atomic ks) (set ks) (t ! i)], s[i := False])"
      "\<not> duplicateIndex cfg cm (cname (cfg ! i))"
  | (childFailed) oper cs where "i < length cfg" "i < length t" "i < length s"
      "contents (cfg ! i) = Combination oper cs"
      "initChildren fuel cfg cm mm cs (t, s[i := True]) = Some (False, st')" "\<not> b"
      "\<not> duplicateIndex cfg cm (cname (cfg ! i))"
  | (combined) oper cs t1 s1 where "i < length cfg" "i < length t" "i < length s"
      "contents (cfg ! i) = Combination oper cs"
      "initChildren fuel cfg cm mm cs (t, s[i := True]) = Some (True, (t1, s1))" "b"
      "st' = (t1[i := finishInit
                    (Combinational oper (List.map_filter (resolveCondition cm (length t1)) cs))
                    (\<Union>j \<in> set (List.map_filter (resolveCondition cm (length t1)) cs).
                        mTrackerIndex (t1 ! j))
                    (t1 ! i)],
              s1[i := False])"
      "\<not> duplicateIndex cfg cm (cname (cfg ! i))"
proof (cases "i < length cfg \<and> i < length t \<and> i < length s")
  case False
  with assms range show ?thesis by auto
next
  case inr0: True
  show ?thesis
  proof (cases "duplicateIndex cfg cm (cname (cfg ! i))")
  case True
  with inr0 assms duplicate show ?thesis by auto
  next
  case nd: False
  from inr0 nd have inr: "i < length cfg \<and> i < length t \<and> i < length s"
    "\<not> duplicateIndex cfg cm (cname (cfg ! i))" by simp_all
  show ?thesis
  proof (cases "contents (cfg ! i)")
    case (SimpleCondition ms)
    with inr assms unresolved atomic show ?thesis
      by (cases "resolveMatchers mm ms") auto
  next
    case (Combination oper cs)
    show ?thesis
    proof (cases "initChildren fuel cfg cm mm cs (t, s[i := True])")
      case None
      with inr Combination assms show ?thesis by simp
    next
      case (Some r)
      obtain b1 t1 s1 where r: "r = (b1, (t1, s1))" by (cases r) auto
      show ?thesis
      proof (cases b1)
        case True
        with inr Combination Some r assms combined[of oper cs t1 s1] show ?thesis
          by (simp add: Let_def)
      next
        case False
        with inr Combination Some r assms childFailed[of oper cs] show ?thesis
          by simp
      qed
    qed
  qed
  qed
qed

lemma initChildren_ConsE:
  assumes "initChildren fuel cfg cm mm (c # cs) (t, s) = Some (b, st')"
  obtains
    (unresolved) "resolveCondition cm (length t) c = None" "\<not> b" "st' = (t, s)"
  | (duplicate) j where "resolveCondition cm (length t) c = Some j" "duplicateIndex cfg cm c"
      "\<not> b" "st' = (t, s)"
  | (cycle) j where "resolveCondition cm (length t) c = Some j" "\<not> j < length s \<or> s ! j"
      "\<not> b" "st' = (t, s)" "\<not> duplicateIndex cfg cm c"
  | (childFailed) j where "resolveCondition cm (length t) c = Some j" "j < length s" "\<not> s ! j"
      "init fuel cfg cm mm j (t, s) = Some (False, st')" "\<not> b" "\<not> duplicateIndex cfg cm c"
  | (continue) j st1 where "resolveCondition cm (length t) c = Some j" "j < length s" "\<not> s ! j"
      "init fuel cfg cm mm j (t, s) = Some (True, st1)"
      "initChildren fuel cfg cm mm cs st1 = Some (b, st')" "\<not> duplicateIndex cfg cm c"
proof (cases "resolveCondition cm (length t) c")
  case None
  with assms unresolved show ?thesis by auto
next
  case (Some j)
  show ?thesis
  proof (cases "duplicateIndex cfg cm c")
  case True
  with Some assms duplicate[of j] show ?thesis by auto
  next
  case nd: False
  show ?thesis
  proof (cases "\<not> j < length s \<or> s ! j")
    case True
    with Some nd assms cycle[of j] show ?thesis by auto
  next
    case ok: False
    show ?thesis
    proof (cases "init fuel cfg cm mm j (t, s)")
      case None
      with Some nd ok assms show ?thesis by simp
    next
      case r: (Some r)
      obtain b1 st1 where r1: "r = (b1, st1)" by (cases r) auto
      show ?thesis
      proof (cases b1)
        case True
        with Some nd ok r r1 assms continue[of j st1] show ?thesis by simp
      next
        case False
        with Some nd ok r r1 assms childFailed[of j] show ?thesis by simp
      qed
    qed
  qed
  qed
qed

text \<open>
  A relation between the state before and after that is reflexive and transitive, holds
  across a change of a marker and across the last step of a successful initialization
  of a node, holds across every call.
\<close>

lemma init_initChildren_rel:
  assumes rf: "\<And>st. R st st"
    and tr: "\<And>a b c. R a b \<Longrightarrow> R b c \<Longrightarrow> R a c"
    and mark: "\<And>t s i v. R (t, s) (t, s[i := v])"
    and fin_atomic: "\<And>t s i ms ks.
          \<lbrakk>i < length cfg; i < length t; contents (cfg ! i) = SimpleCondition ms;
            resolveMatchers mm ms = Some ks; \<not> duplicateIndex cfg cm (cname (cfg ! i))\<rbrakk>
          \<Longrightarrow> R (t, s) (t[i := finishInit (Atomic ks) (set ks) (t ! i)], s)"
    and fin_comb: "\<And>fuel t s i oper cs t1 s1.
          \<lbrakk>i < length cfg; i < length t; contents (cfg ! i) = Combination oper cs;
            initChildren fuel cfg cm mm cs (t, s) = Some (True, (t1, s1));
            \<not> duplicateIndex cfg cm (cname (cfg ! i))\<rbrakk>
          \<Longrightarrow> R (t1, s1)
                (t1[i := finishInit
                    (Combinational oper (List.map_filter (resolveCondition cm (length t1)) cs))
                    (\<Union>j \<in> set (List.map_filter (resolveCondition cm (length t1)) cs).
                        mTrackerIndex (t1 ! j))
                    (t1 ! i)], s1)"
  shows init_rel: "init fuel cfg cm mm i st = Some (b, st') \<Longrightarrow> R st st'"
    and initChildren_rel: "initChildren fuel cfg cm mm cs st = Some (b, st') \<Longrightarrow> R st st'"
proof -
  have children: "R st st'"
    if IH: "\<And>j st b st'. init fuel cfg cm mm j st = Some (b, st') \<Longrightarrow> R st st'"
      and run: "initChildren fuel cfg cm mm cs st = Some (b, st')"
    for fuel cs st b st'
    using run
  proof (induction cs arbitrary: st)
    case Nil
    then show ?case by (simp add: rf)
  next
    case (Cons c cs)
    obtain t s where st: "st = (t, s)" by (cases st)
    from Cons.prems[unfolded st] show ?case
    proof (cases rule: initChildren_ConsE)
      case unresolved
      then show ?thesis by (simp add: st rf)
    next
      case (duplicate j)
      then show ?thesis by (simp add: st rf)
    next
      case (cycle j)
      then show ?thesis by (simp add: st rf)
    next
      case (childFailed j)
      show ?thesis unfolding st by (rule IH[OF childFailed(4)])
    next
      case (continue j st1)
      have "R (t, s) st1" by (rule IH[OF continue(4)])
      moreover have "R st1 st'" by (rule Cons.IH[OF continue(5)])
      ultimately show ?thesis unfolding st by (rule tr)
    qed
  qed
  have node: "init fuel cfg cm mm i st = Some (b, st') \<Longrightarrow> R st st'" for fuel i st b st'
  proof (induction fuel arbitrary: i st b st')
    case 0
    then show ?case by simp
  next
    case (Suc fuel)
    obtain t s where st: "st = (t, s)" by (cases st)
    from Suc.prems[unfolded st] show ?case
    proof (cases rule: init_SucE)
      case range
      then show ?thesis by (simp add: st rf)
    next
      case duplicate
      then show ?thesis by (simp add: st rf)
    next
      case (unresolved ms)
      then show ?thesis by (simp add: st mark)
    next
      case (atomic ms ks)
      show ?thesis unfolding st atomic(7)
        by (rule tr[OF fin_atomic[OF atomic(1,2,4,5,8)] mark])
    next
      case (childFailed oper cs)
      have "R (t, s[i := True]) st'" by (rule children[OF Suc.IH childFailed(5)])
      then show ?thesis unfolding st by (rule tr[OF mark])
    next
      case (combined oper cs t1 s1)
      have "R (t, s[i := True]) (t1, s1)" by (rule children[OF Suc.IH combined(5)])
      then have a: "R (t, s) (t1, s1)" by (rule tr[OF mark])
      show ?thesis unfolding st combined(7)
        by (rule tr[OF a tr[OF fin_comb[OF combined(1,2,4,5,8)] mark]])
    qed
  qed
  show "init fuel cfg cm mm i st = Some (b, st') \<Longrightarrow> R st st'" by (rule node)
  show "initChildren fuel cfg cm mm cs st = Some (b, st') \<Longrightarrow> R st st'"
    by (rule children[OF node])
qed

subsection \<open>Frame, markers and termination\<close>

lemma init_length:
  "init fuel cfg cm mm i st = Some (b, st')
     \<Longrightarrow> length (fst st') = length (fst st) \<and> length (snd st') = length (snd st)"
  by (rule init_rel[where R = "\<lambda>st st'. length (fst st') = length (fst st)
                                        \<and> length (snd st') = length (snd st)"]) simp_all

lemma initChildren_length:
  "initChildren fuel cfg cm mm cs st = Some (b, st')
     \<Longrightarrow> length (fst st') = length (fst st) \<and> length (snd st') = length (snd st)"
  by (rule initChildren_rel[where R = "\<lambda>st st'. length (fst st') = length (fst st)
                                        \<and> length (snd st') = length (snd st)"]) simp_all

lemma initFrame_finish: "initFrame (t, s) (t[i := finishInit v u (t ! i)], s')"
  by (cases "i < length t")
     (auto simp: initFrame_def finishInit_def nth_list_update list_update_beyond)

lemma init_frame: "init fuel cfg cm mm i st = Some (b, st') \<Longrightarrow> initFrame st st'"
  by (rule init_rel[where R = initFrame])
     (auto simp: initFrame_finish, auto simp: initFrame_def)

lemma initChildren_frame: "initChildren fuel cfg cm mm cs st = Some (b, st') \<Longrightarrow> initFrame st st'"
  by (rule initChildren_rel[where R = initFrame])
     (auto simp: initFrame_finish, auto simp: initFrame_def)

lemma init_success_initialized:
  assumes "init fuel cfg cm mm i (t, s) = Some (True, (t', s'))"
  shows "i < length t \<and> i < length cfg \<and> mInitialized (t' ! i)"
proof (cases fuel)
  case 0
  with assms show ?thesis by simp
next
  case (Suc f)
  from assms[unfolded Suc] show ?thesis
  proof (cases rule: init_SucE)
    case (atomic ms ks)
    then show ?thesis by (simp add: finishInit_def)
  next
    case (combined oper cs t1 s1)
    from initChildren_length[OF combined(5)] combined show ?thesis
      by (simp add: finishInit_def)
  qed simp_all
qed

lemma init_success_stack:
  "init fuel cfg cm mm i (t, s) = Some (True, (t', s')) \<Longrightarrow> s' = s[i := False]"
proof (induction fuel arbitrary: i t s t' s')
  case 0
  then show ?case by simp
next
  case (Suc fuel)
  have children: "s' = s"
    if "initChildren fuel cfg cm mm cs (t, s) = Some (True, (t', s'))" for cs t s t' s'
    using that
  proof (induction cs arbitrary: t s)
    case Nil
    then show ?case by simp
  next
    case (Cons c cs)
    from Cons.prems show ?case
    proof (cases rule: initChildren_ConsE)
      case (continue j st1)
      obtain t1 s1 where st1: "st1 = (t1, s1)" by (cases st1)
      from Suc.IH[OF continue(4)[unfolded st1]] continue(2,3)
      have "s1 = s" by (simp add: list_update_same_conv)
      with Cons.IH[OF continue(5)[unfolded st1]] show ?thesis by simp
    qed simp_all
  qed
  from Suc.prems show ?case
  proof (cases rule: init_SucE)
    case (atomic ms ks)
    then show ?thesis by simp
  next
    case (combined oper cs t1 s1)
    from children[OF combined(5)] combined(7) show ?thesis by simp
  qed simp_all
qed

lemma initChildren_success_stack:
  "initChildren fuel cfg cm mm cs (t, s) = Some (True, (t', s')) \<Longrightarrow> s' = s"
proof (induction cs arbitrary: t s)
  case Nil
  then show ?case by simp
next
  case (Cons c cs)
  from Cons.prems show ?case
  proof (cases rule: initChildren_ConsE)
    case (continue j st1)
    obtain t1 s1 where st1: "st1 = (t1, s1)" by (cases st1)
    from init_success_stack[OF continue(4)[unfolded st1]] continue(2,3)
    have "s1 = s" by (simp add: list_update_same_conv)
    with Cons.IH[OF continue(5)[unfolded st1]] show ?thesis by simp
  qed simp_all
qed

text \<open>
  When the loop over the children succeeds, every name resolved to a node that was not
  marked and is initialized afterwards, and no name was a duplicate index assignment.
\<close>

lemma initChildren_success_children:
  "initChildren fuel cfg cm mm cs (t, s) = Some (True, (t', s'))
     \<Longrightarrow> \<forall>c \<in> set cs. \<exists>j. resolveCondition cm (length t) c = Some j \<and> j < length t
            \<and> j < length s \<and> \<not> s ! j \<and> mInitialized (t' ! j)
            \<and> \<not> duplicateIndex cfg cm c"
proof (induction cs arbitrary: t s)
  case Nil
  then show ?case by simp
next
  case (Cons c cs)
  from Cons.prems show ?case
  proof (cases rule: initChildren_ConsE)
    case (continue j st1)
    obtain t1 s1 where st1: "st1 = (t1, s1)" by (cases st1)
    note a = init_success_initialized[OF continue(4)[unfolded st1]]
    note l = init_length[OF continue(4)[unfolded st1]]
    from init_success_stack[OF continue(4)[unfolded st1]] continue(2,3)
    have s1: "s1 = s" by (simp add: list_update_same_conv)
    from initChildren_frame[OF continue(5)[unfolded st1]] a
    have "mInitialized (t' ! j)" by (simp add: initFrame_def)
    with Cons.IH[OF continue(5)[unfolded st1]] continue(1,2,3,6) a l s1
    show ?thesis by auto
  qed simp_all
qed

lemma unmarked_le: "unmarked s \<le> length s"
proof -
  have "{k. k < length s \<and> \<not> s ! k} \<subseteq> {..<length s}" by auto
  then have "card {k. k < length s \<and> \<not> s ! k} \<le> card {..<length s}"
    by (intro card_mono) simp_all
  then show ?thesis by (simp add: unmarked_def)
qed

lemma unmarked_mark:
  assumes "i < length s" "\<not> s ! i"
  shows "unmarked (s[i := True]) < unmarked s"
proof -
  have eq: "{k. k < length (s[i := True]) \<and> \<not> s[i := True] ! k}
          = {k. k < length s \<and> \<not> s ! k} - {i}"
    using assms by (auto simp: nth_list_update)
  have fin: "finite {k. k < length s \<and> \<not> s ! k}" by simp
  have "i \<in> {k. k < length s \<and> \<not> s ! k}" using assms by simp
  then have "card ({k. k < length s \<and> \<not> s ! k} - {i}) < card {k. k < length s \<and> \<not> s ! k}"
    using fin by (intro card_Diff1_less) simp_all
  then show ?thesis unfolding unmarked_def eq .
qed

lemma initChildren_returns_aux:
  assumes IH: "\<And>j t s. unmarked s < fuel \<Longrightarrow> (j < length s \<longrightarrow> \<not> s ! j)
                 \<Longrightarrow> init fuel cfg cm mm j (t, s) \<noteq> None"
  shows "unmarked s < fuel \<Longrightarrow> initChildren fuel cfg cm mm cs (t, s) \<noteq> None"
proof (induction cs arbitrary: t s)
  case Nil
  then show ?case by simp
next
  case (Cons c cs)
  show ?case
  proof (cases "resolveCondition cm (length t) c")
    case None
    then show ?thesis by simp
  next
    case (Some j)
    show ?thesis
    proof (cases "\<not> j < length s \<or> s ! j")
      case True
      with Some show ?thesis by auto
    next
      case ok: False
      then have "init fuel cfg cm mm j (t, s) \<noteq> None" using IH[OF Cons.prems] by simp
      then obtain b t1 s1 where r: "init fuel cfg cm mm j (t, s) = Some (b, (t1, s1))" by auto
      show ?thesis
      proof (cases b)
        case False
        with Some ok r show ?thesis by auto
      next
        case True
        with init_success_stack[of fuel cfg cm mm j t s t1 s1] r ok
        have "s1 = s" by (simp add: list_update_same_conv)
        with Cons.IH[of s t1] Cons.prems Some ok r True show ?thesis by auto
      qed
    qed
  qed
qed

lemma init_returns_aux:
  "unmarked s < fuel \<Longrightarrow> (i < length s \<longrightarrow> \<not> s ! i) \<Longrightarrow> init fuel cfg cm mm i (t, s) \<noteq> None"
proof (induction fuel arbitrary: i t s)
  case 0
  then show ?case by simp
next
  case (Suc fuel)
  show ?case
  proof (cases "i < length cfg \<and> i < length t \<and> i < length s")
    case False
    then show ?thesis by auto
  next
    case inr: True
    with Suc.prems have u: "unmarked (s[i := True]) < fuel"
      using unmarked_mark[of i s] by simp
    have c: "initChildren fuel cfg cm mm cs (t, s[i := True]) \<noteq> None" for cs
    proof (rule initChildren_returns_aux)
      show "unmarked (s[i := True]) < fuel" by (rule u)
      show "init fuel cfg cm mm j (t, s) \<noteq> None"
        if "unmarked s < fuel" "j < length s \<longrightarrow> \<not> s ! j" for j t s
        using that by (rule Suc.IH)
    qed
    show ?thesis
    proof (cases "contents (cfg ! i)")
      case (SimpleCondition ms)
      with inr show ?thesis by (cases "resolveMatchers mm ms") auto
    next
      case (Combination oper cs)
      from c[of cs] obtain b t1 s1 where
        "initChildren fuel cfg cm mm cs (t, s[i := True]) = Some (b, (t1, s1))" by auto
      with inr Combination show ?thesis by (cases b) (auto simp add: Let_def)
    qed
  qed
qed

text \<open>
  With a depth bound above the arena size, \<open>init\<close> returns, with success or with
  failure, on every configuration.
\<close>

lemma init_returns:
  assumes "length s \<le> length t" "i < length s \<longrightarrow> \<not> s ! i"
  shows "\<exists>b st'. init (Suc (length t)) cfg cm mm i (t, s) = Some (b, st')"
proof -
  have "unmarked s < Suc (length t)" using unmarked_le[of s] assms(1) by simp
  from init_returns_aux[OF this assms(2)] show ?thesis by auto
qed

subsection \<open>The invariant of initialization\<close>

lemma dependsOn_edge:
  "i < length cfg \<Longrightarrow> j \<in> set (dependsOn cfg cm i) \<Longrightarrow> (i, j) \<in> dependencyGraph cfg cm"
  by (simp add: dependencyGraph_def)

lemma edge_dependsOn:
  "(i, j) \<in> dependencyGraph cfg cm \<Longrightarrow> i < length cfg \<and> j \<in> set (dependsOn cfg cm i)"
  by (simp add: dependencyGraph_def)

lemma dependsOn_less: "j \<in> set (dependsOn cfg cm i) \<Longrightarrow> j < length cfg"
  by (auto simp: dependsOn_def List.map_filter_def resolveCondition_def
           split: option.splits if_splits)

lemma reachesCycle_child:
  assumes "reachesCycle cfg cm i"
  shows "\<exists>j \<in> set (dependsOn cfg cm i). reachesCycle cfg cm j"
proof -
  from assms obtain k where k: "(i, k) \<in> (dependencyGraph cfg cm)\<^sup>*"
      "(k, k) \<in> (dependencyGraph cfg cm)\<^sup>+"
    by (auto simp: reachesCycle_def)
  then have "(i, k) \<in> (dependencyGraph cfg cm)\<^sup>+" by (rule rtrancl_trancl_trancl)
  then obtain j where j: "(i, j) \<in> dependencyGraph cfg cm" "(j, k) \<in> (dependencyGraph cfg cm)\<^sup>*"
    by (auto dest: tranclD)
  from j(2) k(2) have "reachesCycle cfg cm j" by (auto simp: reachesCycle_def)
  with edge_dependsOn[OF j(1)] show ?thesis by auto
qed

lemma reachesCycle_parent:
  assumes "i < length cfg" "j \<in> set (dependsOn cfg cm i)" "reachesCycle cfg cm j"
  shows "reachesCycle cfg cm i"
proof -
  from assms(3) obtain k where k: "(j, k) \<in> (dependencyGraph cfg cm)\<^sup>*"
      "(k, k) \<in> (dependencyGraph cfg cm)\<^sup>+"
    by (auto simp: reachesCycle_def)
  from dependsOn_edge[OF assms(1,2)] k(1) have "(i, k) \<in> (dependencyGraph cfg cm)\<^sup>*"
    by (rule converse_rtrancl_into_rtrancl)
  with k(2) show ?thesis by (auto simp: reachesCycle_def)
qed

lemma finish_preserves:
  assumes inv: "initInvariant cfg cm mm t"
    and i: "i < length cfg"
    and nr: "namesResolve cm mm (length cfg) (contents (cfg ! i))"
    and nd: "\<not> duplicateIndex cfg cm (cname (cfg ! i))"
      "list_all (\<lambda>c. \<not> duplicateIndex cfg cm c) (childNames (contents (cfg ! i)))"
    and kids: "\<forall>j \<in> set (dependsOn cfg cm i). mInitialized (t ! j)"
    and v: "v = resolvedVariant cfg cm mm i"
    and u: "u = ownMatchers mm (contents (cfg ! i))
                  \<union> (\<Union>j \<in> set (dependsOn cfg cm i). mTrackerIndex (t ! j))"
  shows "initInvariant cfg cm mm (t[i := finishInit v u (t ! i)])"
proof -
  let ?t' = "t[i := finishInit v u (t ! i)]"
  from inv have len: "length t = length cfg" by (simp add: initInvariant_def)
  have node: "nodeResolved cfg cm mm t k" if "k < length cfg" "mInitialized (t ! k)" for k
    using inv that by (auto simp: initInvariant_def)
  have empty: "mTrackerIndex (t ! k) = {}" if "k < length cfg" "\<not> mInitialized (t ! k)" for k
    using inv that by (auto simp: initInvariant_def)
  have nocyc: "\<not> reachesCycle cfg cm i"
  proof
    assume "reachesCycle cfg cm i"
    then obtain j where j: "j \<in> set (dependsOn cfg cm i)" "reachesCycle cfg cm j"
      using reachesCycle_child by blast
    with kids node[of j] dependsOn_less[OF j(1)] show False
      by (auto simp: nodeResolved_def)
  qed
  have tri: "mTrackerIndex (?t' ! i) = u"
  proof (cases "mInitialized (t ! i)")
    case True
    from node[OF i True] have "mTrackerIndex (t ! i) = u" by (simp add: nodeResolved_def u)
    then show ?thesis using i len by (simp add: finishInit_def)
  next
    case False
    from empty[OF i False] show ?thesis using i len by (simp add: finishInit_def)
  qed
  have same: "mTrackerIndex (?t' ! j) = mTrackerIndex (t ! j)" if "mInitialized (t ! j)" "j < length cfg" for j
  proof (cases "j = i")
    case True
    with node[OF i] that have "mTrackerIndex (t ! i) = u" by (simp add: nodeResolved_def u)
    with tri True show ?thesis by simp
  next
    case False
    then show ?thesis by simp
  qed
  have mono: "mInitialized (?t' ! j)" if "mInitialized (t ! j)" for j
    using that i len by (cases "j = i") (simp_all add: finishInit_def)
  have "if mInitialized (?t' ! k) then nodeResolved cfg cm mm ?t' k
        else mTrackerIndex (?t' ! k) = {}" if k: "k < length cfg" for k
  proof (cases "k = i")
    case True
    have "mInitialized (?t' ! i)" using i len by (simp add: finishInit_def)
    moreover have "mVariant (?t' ! i) = resolvedVariant cfg cm mm i"
      using i len v by (simp add: finishInit_def)
    moreover have "(\<Union>j \<in> set (dependsOn cfg cm i). mTrackerIndex (?t' ! j))
                    = (\<Union>j \<in> set (dependsOn cfg cm i). mTrackerIndex (t ! j))"
      using same kids dependsOn_less by (intro SUP_cong) auto
    moreover have "\<forall>j \<in> set (dependsOn cfg cm i). mInitialized (?t' ! j)"
      using kids mono by blast
    ultimately show ?thesis using True tri nr nd nocyc u by (simp add: nodeResolved_def)
  next
    case False
    then have eq: "?t' ! k = t ! k" by simp
    show ?thesis
    proof (cases "mInitialized (t ! k)")
      case True
      note n = node[OF k True]
      then have kk: "\<forall>j \<in> set (dependsOn cfg cm k). mInitialized (t ! j)"
        by (simp add: nodeResolved_def)
      have "(\<Union>j \<in> set (dependsOn cfg cm k). mTrackerIndex (?t' ! j))
              = (\<Union>j \<in> set (dependsOn cfg cm k). mTrackerIndex (t ! j))"
        using same kk dependsOn_less by (intro SUP_cong) auto
      moreover have "\<forall>j \<in> set (dependsOn cfg cm k). mInitialized (?t' ! j)"
        using kk mono by blast
      ultimately show ?thesis using n True eq by (simp add: nodeResolved_def)
    next
      case False
      with empty[OF k False] eq show ?thesis by simp
    qed
  qed
  with len show ?thesis by (simp add: initInvariant_def)
qed

lemma dependsOn_Simple:
  "contents (cfg ! i) = SimpleCondition ms \<Longrightarrow> dependsOn cfg cm i = []"
  by (simp add: dependsOn_def List.map_filter_def)

lemma dependsOn_Combination:
  "contents (cfg ! i) = Combination oper cs
     \<Longrightarrow> dependsOn cfg cm i = List.map_filter (resolveCondition cm (length cfg)) cs"
  by (simp add: dependsOn_def)

lemma map_filter_mem:
  "j \<in> set (List.map_filter f xs) \<longleftrightarrow> (\<exists>x \<in> set xs. f x = Some j)"
  by (force simp: List.map_filter_def)

lemma resolveMatchers_set:
  "resolveMatchers mm ms = Some ks \<Longrightarrow> set ks = (\<Union>m \<in> set ms. set_option (mm m))"
  by (induction ms arbitrary: ks) (auto split: option.splits)

lemma init_invariant_rel:
  shows init_invariant:
    "init fuel cfg cm mm i st = Some (b, st')
       \<Longrightarrow> initInvariant cfg cm mm (fst st) \<Longrightarrow> initInvariant cfg cm mm (fst st')"
proof -
  let ?R = "\<lambda>st st'. initInvariant cfg cm mm (fst st) \<longrightarrow> initInvariant cfg cm mm (fst st')"
  have "init fuel cfg cm mm i st = Some (b, st') \<Longrightarrow> ?R st st'"
  proof (rule init_rel[where R = ?R])
    fix t :: "ConditionNode list" and s :: "bool list" and i ms ks
    assume a: "i < length cfg" "i < length t" "contents (cfg ! i) = SimpleCondition ms"
      "resolveMatchers mm ms = Some ks" "\<not> duplicateIndex cfg cm (cname (cfg ! i))"
    show "?R (t, s) (t[i := finishInit (Atomic ks) (set ks) (t ! i)], s)"
    proof (clarsimp)
      assume inv: "initInvariant cfg cm mm t"
      show "initInvariant cfg cm mm (t[i := finishInit (Atomic ks) (set ks) (t ! i)])"
        by (rule finish_preserves[OF inv a(1)])
           (simp_all add: a dependsOn_Simple resolvedVariant_def resolveMatchers_set[OF a(4)])
    qed
  next
    fix fuel t s i oper cs t1 s1
    assume a: "i < length cfg" "i < length t" "contents (cfg ! i) = Combination oper cs"
      "initChildren fuel cfg cm mm cs (t, s) = Some (True, (t1, s1))"
      "\<not> duplicateIndex cfg cm (cname (cfg ! i))"
    let ?ch = "List.map_filter (resolveCondition cm (length t1)) cs"
    show "?R (t1, s1)
            (t1[i := finishInit (Combinational oper ?ch)
                      (\<Union>j \<in> set ?ch. mTrackerIndex (t1 ! j)) (t1 ! i)], s1)"
    proof (clarsimp)
      assume inv: "initInvariant cfg cm mm t1"
      then have len: "length t1 = length cfg" by (simp add: initInvariant_def)
      from initChildren_length[OF a(4)] have lt: "length t = length t1" by simp
      note kids = initChildren_success_children[OF a(4)]
      have ch: "?ch = dependsOn cfg cm i" by (simp add: dependsOn_Combination[OF a(3)] len)
      show "initInvariant cfg cm mm
              (t1[i := finishInit (Combinational oper ?ch)
                      (\<Union>j \<in> set ?ch. mTrackerIndex (t1 ! j)) (t1 ! i)])"
      proof (rule finish_preserves[OF inv a(1)])
        show "namesResolve cm mm (length cfg) (contents (cfg ! i))"
          using kids by (auto simp: a(3) list_all_iff lt len)
        show "\<not> duplicateIndex cfg cm (cname (cfg ! i))" by (rule a(5))
        show "list_all (\<lambda>c. \<not> duplicateIndex cfg cm c) (childNames (contents (cfg ! i)))"
          using kids by (auto simp: a(3) list_all_iff)
        show "\<forall>j \<in> set (dependsOn cfg cm i). mInitialized (t1 ! j)"
          using kids by (fastforce simp: dependsOn_Combination[OF a(3)] map_filter_mem lt len)
        show "Combinational oper ?ch = resolvedVariant cfg cm mm i"
          by (simp add: resolvedVariant_def a(3) ch)
        show "(\<Union>j \<in> set ?ch. mTrackerIndex (t1 ! j))
                = ownMatchers mm (contents (cfg ! i))
                    \<union> (\<Union>j \<in> set (dependsOn cfg cm i). mTrackerIndex (t1 ! j))"
          by (simp add: a(3) ch)
      qed
    qed
  qed auto
  then show "init fuel cfg cm mm i st = Some (b, st')
       \<Longrightarrow> initInvariant cfg cm mm (fst st) \<Longrightarrow> initInvariant cfg cm mm (fst st')"
    by simp
qed

lemma edge_of_child:
  assumes "p < length cfg" "c \<in> set (childNames (contents (cfg ! p)))"
    "resolveCondition cm (length cfg) c = Some j"
  shows "(p, j) \<in> dependencyGraph cfg cm"
  using assms by (auto simp: dependencyGraph_def dependsOn_def map_filter_mem)

lemma noDuplicateIndex_node:
  "noDuplicateIndex cfg cm \<Longrightarrow> i < length cfg
     \<Longrightarrow> \<not> duplicateIndex cfg cm (cname (cfg ! i))
         \<and> (\<forall>c \<in> set (childNames (contents (cfg ! i))). \<not> duplicateIndex cfg cm c)"
  by (auto simp: noDuplicateIndex_def list_all_iff)

lemma fullyResolvable_node:
  "fullyResolvable cfg cm mm \<Longrightarrow> i < length cfg
     \<Longrightarrow> namesResolve cm mm (length cfg) (contents (cfg ! i))"
  by (simp add: fullyResolvable_def list_all_length)

lemma initChildren_no_failure:
  assumes ac: "\<not> hasCycle cfg cm"
    and IH: "\<And>j t s b st'. \<lbrakk>length t = length cfg; length s = length cfg; j < length cfg;
                \<forall>k < length cfg. s ! k \<longrightarrow> (k, j) \<in> (dependencyGraph cfg cm)\<^sup>+;
                init fuel cfg cm mm j (t, s) = Some (b, st')\<rbrakk> \<Longrightarrow> b"
    and p: "p < length cfg"
    and nr: "namesResolve cm mm (length cfg) (contents (cfg ! p))"
    and nd: "\<forall>c \<in> set (childNames (contents (cfg ! p))). \<not> duplicateIndex cfg cm c"
  shows "\<lbrakk>length t = length cfg; length s = length cfg;
          set cs \<subseteq> set (childNames (contents (cfg ! p)));
          \<forall>k < length cfg. s ! k \<longrightarrow> (k, p) \<in> (dependencyGraph cfg cm)\<^sup>*;
          initChildren fuel cfg cm mm cs (t, s) = Some (b, st')\<rbrakk> \<Longrightarrow> b"
proof (induction cs arbitrary: t s)
  case Nil
  then show ?case by simp
next
  case (Cons c cs)
  from Cons.prems(3) have cin: "c \<in> set (childNames (contents (cfg ! p)))" by simp
  then have res: "resolveCondition cm (length cfg) c \<noteq> None"
    using nr by (cases "contents (cfg ! p)") (auto simp: list_all_iff)
  have edge: "(p, j) \<in> dependencyGraph cfg cm"
    if "resolveCondition cm (length t) c = Some j" for j
    using that edge_of_child[OF p cin] Cons.prems(1) by simp
  have jless: "j < length cfg" if "resolveCondition cm (length t) c = Some j" for j
    using that Cons.prems(1) by (auto simp: resolveCondition_def split: option.splits if_splits)
  have marks: "(k, j) \<in> (dependencyGraph cfg cm)\<^sup>+"
    if "resolveCondition cm (length t) c = Some j" "k < length cfg" "s ! k" for j k
    using Cons.prems(4) that edge[OF that(1)] by (meson rtrancl_into_trancl1)
  from Cons.prems(5) show ?case
  proof (cases rule: initChildren_ConsE)
    case unresolved
    with res Cons.prems(1) show ?thesis by simp
  next
    case (duplicate j)
    with nd cin show ?thesis by simp
  next
    case (cycle j)
    with jless[OF cycle(1)] Cons.prems(2) have "s ! j" by simp
    from marks[OF cycle(1) jless[OF cycle(1)] this] ac show ?thesis
      by (auto simp: hasCycle_def)
  next
    case (childFailed j)
    have "False"
      by (rule IH[OF Cons.prems(1,2) jless[OF childFailed(1)] _ childFailed(4)])
         (use marks[OF childFailed(1)] in blast)
    then show ?thesis ..
  next
    case (continue j st1)
    obtain t1 s1 where st1: "st1 = (t1, s1)" by (cases st1)
    from init_success_stack[OF continue(4)[unfolded st1]] continue(2,3)
    have s1: "s1 = s" by (simp add: list_update_same_conv)
    from init_length[OF continue(4)[unfolded st1]] Cons.prems(1)
    have l1: "length t1 = length cfg" by simp
    show ?thesis
      by (rule Cons.IH[OF l1 Cons.prems(2) _ Cons.prems(4) continue(5)[unfolded st1 s1]])
         (use Cons.prems(3) in simp)
  qed
qed

lemma init_no_failure:
  assumes ac: "\<not> hasCycle cfg cm" and res: "fullyResolvable cfg cm mm"
    and nodup: "noDuplicateIndex cfg cm"
  shows "\<lbrakk>length t = length cfg; length s = length cfg; i < length cfg;
          \<forall>k < length cfg. s ! k \<longrightarrow> (k, i) \<in> (dependencyGraph cfg cm)\<^sup>+;
          init fuel cfg cm mm i (t, s) = Some (b, st')\<rbrakk> \<Longrightarrow> b"
proof (induction fuel arbitrary: i t s b st')
  case 0
  then show ?case by simp
next
  case (Suc fuel)
  note nr = fullyResolvable_node[OF res Suc.prems(3)]
  note nd = noDuplicateIndex_node[OF nodup Suc.prems(3)]
  from Suc.prems(5) show ?case
  proof (cases rule: init_SucE)
    case range
    with Suc.prems show ?thesis by simp
  next
    case duplicate
    with nd show ?thesis by simp
  next
    case (unresolved ms)
    with nr show ?thesis by simp
  next
    case (childFailed oper cs)
    have "False"
    proof (rule initChildren_no_failure[OF ac _ Suc.prems(3) nr conjunct2[OF nd] _ _ _ _ childFailed(5)])
      show "length t = length cfg" by (rule Suc.prems(1))
      show "length (s[i := True]) = length cfg" using Suc.prems(2) by simp
      show "set cs \<subseteq> set (childNames (contents (cfg ! i)))" by (simp add: childFailed(4))
      show "\<forall>k<length cfg. s[i := True] ! k \<longrightarrow> (k, i) \<in> (dependencyGraph cfg cm)\<^sup>*"
      proof (intro allI impI)
        fix k assume k: "k < length cfg" "s[i := True] ! k"
        show "(k, i) \<in> (dependencyGraph cfg cm)\<^sup>*"
        proof (cases "k = i")
          case False
          with k Suc.prems(4) have "(k, i) \<in> (dependencyGraph cfg cm)\<^sup>+" by simp
          then show ?thesis by (rule trancl_into_rtrancl)
        qed simp
      qed
    qed (rule Suc.IH)
    then show ?thesis ..
  qed simp_all
qed

subsection \<open>The batch\<close>

lemma length_buildArena: "length (buildArena cfg) = length cfg"
  by (simp add: buildArena_def)

lemma nth_buildArena: "i < length cfg \<Longrightarrow> buildArena cfg ! i = newNode (cfg ! i) i"
  by (simp add: buildArena_def nth_enumerate_eq)

lemma newNode_fields:
  "mName (newNode c i) = cname c" "mIndex (newNode c i) = int i"
  "mInitialized (newNode c i) = False" "mTrackerIndex (newNode c i) = {}"
  "mNonSlicedConditionState (newNode c i) = kUnknown" "mSliced (newNode c i) = False"
  "mVariant (newNode c i) = initialVariant (contents c)"
  by (simp_all add: newNode_def ConditionTracker_def ConditionTracker.extend_def
        ConditionNode.fields_def)

lemma initInvariant_buildArena: "initInvariant cfg cm mm (buildArena cfg)"
  by (simp add: initInvariant_def length_buildArena nth_buildArena newNode_fields)

lemma initFrame_refl: "initFrame st st"
  by (simp add: initFrame_def)

lemma initFrame_trans: "initFrame a b \<Longrightarrow> initFrame b c \<Longrightarrow> initFrame a c"
  by (simp add: initFrame_def)

lemma clearStack_update: "clearStack s \<Longrightarrow> s[i := False] = s"
  by (cases "i < length s") (simp_all add: clearStack_def list_update_same_conv list_update_beyond)

lemma clearStack_replicate: "clearStack (replicate n False)"
  by (simp add: clearStack_def)

lemma initAll_ConsE:
  assumes "initAll cfg cm mm st0 (i # rest) st = Some (b, st')"
  obtains (failed) st1 where
      "init (Suc (length (fst st))) cfg cm mm i st = Some (False, st1)" "\<not> b" "st' = st0"
  | (continue) st1 where "init (Suc (length (fst st))) cfg cm mm i st = Some (True, st1)"
      "initAll cfg cm mm st0 rest st1 = Some (b, st')"
proof (cases "init (Suc (length (fst st))) cfg cm mm i st")
  case None
  with assms show ?thesis by simp
next
  case (Some r)
  obtain b1 st1 where r: "r = (b1, st1)" by (cases r)
  show ?thesis
  proof (cases b1)
    case True
    with Some r assms continue[of st1] show ?thesis by simp
  next
    case False
    with Some r assms failed[of st1] show ?thesis by simp
  qed
qed

text \<open>A failed batch hands back the state it received.\<close>

lemma initAll_failure:
  "initAll cfg cm mm st0 is st = Some (False, st') \<Longrightarrow> st' = st0"
proof (induction "is" arbitrary: st)
  case Nil
  then show ?case by simp
next
  case (Cons i rest)
  from Cons.prems show ?case
  proof (cases rule: initAll_ConsE)
    case (failed st1)
    then show ?thesis by simp
  next
    case (continue st1)
    from Cons.IH[OF continue(2)] show ?thesis .
  qed
qed

lemma initAll_length:
  "initAll cfg cm mm st0 is st = Some (True, st')
     \<Longrightarrow> length (fst st') = length (fst st) \<and> length (snd st') = length (snd st)"
proof (induction "is" arbitrary: st)
  case Nil
  then show ?case by simp
next
  case (Cons i rest)
  from Cons.prems show ?case
  proof (cases rule: initAll_ConsE)
    case (failed st1)
    then show ?thesis by simp
  next
    case (continue st1)
    with init_length[OF continue(1)] Cons.IH[OF continue(2)] show ?thesis by simp
  qed
qed

lemma initAll_frame: "initAll cfg cm mm st0 is st = Some (True, st') \<Longrightarrow> initFrame st st'"
proof (induction "is" arbitrary: st)
  case Nil
  then show ?case by (simp add: initFrame_refl)
next
  case (Cons i rest)
  from Cons.prems show ?case
  proof (cases rule: initAll_ConsE)
    case (failed st1)
    then show ?thesis by simp
  next
    case (continue st1)
    from init_frame[OF continue(1)] Cons.IH[OF continue(2)] show ?thesis
      by (rule initFrame_trans)
  qed
qed

lemma initAll_invariant:
  "initAll cfg cm mm st0 is st = Some (True, st')
     \<Longrightarrow> initInvariant cfg cm mm (fst st) \<Longrightarrow> initInvariant cfg cm mm (fst st')"
proof (induction "is" arbitrary: st)
  case Nil
  then show ?case by simp
next
  case (Cons i rest)
  from Cons.prems(1) show ?case
  proof (cases rule: initAll_ConsE)
    case (failed st1)
    then show ?thesis by simp
  next
    case (continue st1)
    from Cons.IH[OF continue(2) init_invariant[OF continue(1) Cons.prems(2)]] show ?thesis .
  qed
qed

lemma initAll_success:
  "initAll cfg cm mm st0 is (t, s) = Some (True, (t', s')) \<Longrightarrow> clearStack s
     \<Longrightarrow> s' = s \<and> (\<forall>i \<in> set is. mInitialized (t' ! i))"
proof (induction "is" arbitrary: t s)
  case Nil
  then show ?case by simp
next
  case (Cons i rest)
  from Cons.prems(1) show ?case
  proof (cases rule: initAll_ConsE)
    case (failed st1)
    then show ?thesis by simp
  next
    case (continue st1)
    obtain t1 s1 where st1: "st1 = (t1, s1)" by (cases st1)
    from continue(1) have run: "init (Suc (length t)) cfg cm mm i (t, s) = Some (True, (t1, s1))"
      by (simp add: st1 del: init.simps)
    from init_success_stack[OF run] Cons.prems(2) have s1: "s1 = s"
      by (simp add: clearStack_update)
    from Cons.IH[OF continue(2)[unfolded st1 s1] Cons.prems(2)]
    have r: "s' = s" "\<forall>i \<in> set rest. mInitialized (t' ! i)" by simp_all
    from init_success_initialized[OF run] have "mInitialized (t1 ! i)" by simp
    with initAll_frame[OF continue(2)[unfolded st1]] have "mInitialized (t' ! i)"
      by (simp add: initFrame_def)
    with r show ?thesis by simp
  qed
qed

lemma initAll_returns:
  "clearStack s \<Longrightarrow> length s \<le> length t
     \<Longrightarrow> \<exists>b st'. initAll cfg cm mm st0 is (t, s) = Some (b, st')"
proof (induction "is" arbitrary: t s)
  case Nil
  show ?case by auto
next
  case (Cons i rest)
  from Cons.prems have "i < length s \<longrightarrow> \<not> s ! i" by (simp add: clearStack_def)
  from init_returns[OF Cons.prems(2) this]
  obtain b1 st1 where run0: "init (Suc (length t)) cfg cm mm i (t, s) = Some (b1, st1)"
    by blast
  obtain t1 s1 where "st1 = (t1, s1)" by (cases st1)
  with run0 have run: "init (Suc (length t)) cfg cm mm i (t, s) = Some (b1, (t1, s1))"
    by (simp del: init.simps)
  show ?case
  proof (cases b1)
    case False
    with run show ?thesis by (auto simp del: init.simps)
  next
    case True
    with run have run': "init (Suc (length t)) cfg cm mm i (t, s) = Some (True, (t1, s1))"
      by (simp del: init.simps)
    from init_success_stack[OF run'] Cons.prems(1)
    have s1: "s1 = s" by (simp add: clearStack_update)
    from init_length[OF run] Cons.prems(2) have "length s \<le> length t1" by simp
    from Cons.IH[OF Cons.prems(1) this] run' s1 show ?thesis by (auto simp del: init.simps)
  qed
qed

lemma initAll_no_failure:
  assumes ac: "\<not> hasCycle cfg cm" and res: "fullyResolvable cfg cm mm"
    and nodup: "noDuplicateIndex cfg cm"
  shows "\<lbrakk>initAll cfg cm mm st0 is (t, s) = Some (b, st'); clearStack s; length t = length cfg;
          length s = length cfg; \<forall>i \<in> set is. i < length cfg\<rbrakk> \<Longrightarrow> b"
proof (induction "is" arbitrary: t s)
  case Nil
  then show ?case by simp
next
  case (Cons i rest)
  have marks: "\<forall>k < length cfg. s ! k \<longrightarrow> (k, i) \<in> (dependencyGraph cfg cm)\<^sup>+"
    using Cons.prems(2,4) by (simp add: clearStack_def)
  from Cons.prems(5) have i: "i < length cfg" by simp
  from Cons.prems(1) show ?case
  proof (cases rule: initAll_ConsE)
    case (failed st1)
    from failed(1) have "init (Suc (length t)) cfg cm mm i (t, s) = Some (False, st1)"
      by (simp del: init.simps)
    from init_no_failure[OF ac res nodup Cons.prems(3,4) i marks this]
    show ?thesis by simp
  next
    case (continue st1)
    obtain t1 s1 where st1: "st1 = (t1, s1)" by (cases st1)
    from continue(1) have run: "init (Suc (length t)) cfg cm mm i (t, s) = Some (True, (t1, s1))"
      by (simp add: st1 del: init.simps)
    from init_success_stack[OF run] Cons.prems(2) have s1: "s1 = s"
      by (simp add: clearStack_update)
    from init_length[OF run] Cons.prems(3) have l1: "length t1 = length cfg" by simp
    from Cons.IH[OF continue(2)[unfolded st1 s1] Cons.prems(2) l1 Cons.prems(4)] Cons.prems(5)
    show ?thesis by simp
  qed
qed

lemma initConditions_returns:
  "\<exists>b t s. initConditions cfg cm mm = Some (b, (t, s))"
proof -
  have "\<exists>b st'. initAll cfg cm mm (buildArena cfg, replicate (length cfg) False)
          [0..<length cfg] (buildArena cfg, replicate (length cfg) False) = Some (b, st')"
    by (rule initAll_returns) (simp_all add: clearStack_replicate length_buildArena)
  then show ?thesis by (auto simp: initConditions_def)
qed

lemma initConditions_failure:
  assumes "initConditions cfg cm mm = Some (False, (t, s))"
  shows "t = buildArena cfg" "s = replicate (length cfg) False"
  using initAll_failure[OF assms[unfolded initConditions_def]] by simp_all

lemma initConditions_frame:
  assumes "initConditions cfg cm mm = Some (b, (t, s))"
  shows "initFrame (buildArena cfg, replicate (length cfg) False) (t, s)"
proof (cases b)
  case True
  with assms show ?thesis by (auto simp: initConditions_def intro: initAll_frame)
next
  case False
  with initConditions_failure[of cfg cm mm t s] assms show ?thesis by (simp add: initFrame_refl)
qed

lemma initConditions_invariant:
  assumes "initConditions cfg cm mm = Some (b, (t, s))"
  shows "initInvariant cfg cm mm t"
proof (cases b)
  case True
  with assms have "initAll cfg cm mm (buildArena cfg, replicate (length cfg) False)
          [0..<length cfg] (buildArena cfg, replicate (length cfg) False) = Some (True, (t, s))"
    by (simp add: initConditions_def)
  from initAll_invariant[OF this] initInvariant_buildArena show ?thesis by simp
next
  case False
  with initConditions_failure[of cfg cm mm t s] assms initInvariant_buildArena
  show ?thesis by simp
qed

lemma initConditions_success:
  assumes "initConditions cfg cm mm = Some (True, (t, s))"
  shows "\<forall>i < length cfg. mInitialized (t ! i)"
  using initAll_success[OF assms[unfolded initConditions_def] clearStack_replicate]
  by simp





lemma initConditions_acyclic_succeeds:
  assumes "\<not> hasCycle cfg cm" "fullyResolvable cfg cm mm" "noDuplicateIndex cfg cm"
  shows "\<exists>t s. initConditions cfg cm mm = Some (True, (t, s))"
proof -
  from initConditions_returns obtain b t s where
    r: "initConditions cfg cm mm = Some (b, (t, s))" by blast
  have b
    by (rule initAll_no_failure[OF assms r[unfolded initConditions_def]])
       (simp_all add: clearStack_replicate length_buildArena)
  with r show ?thesis by auto
qed

subsection \<open>Initialization of acyclic and of cyclic configurations\<close>

lemma no_cycle_if_children_smaller:
  assumes "\<And>i j. (i, j) \<in> dependencyGraph cfg cm \<Longrightarrow> j < i"
  shows "\<not> hasCycle cfg cm"
proof -
  have "k < i" if "(i, k) \<in> (dependencyGraph cfg cm)\<^sup>+" for i k
    using that by (induction rule: trancl.induct) (auto dest: assms)
  then show ?thesis by (auto simp: hasCycle_def)
qed

lemma exampleConfig_dependsOn:
  "dependsOn exampleConfig exampleConditionMap 0 = []"
  "dependsOn exampleConfig exampleConditionMap (Suc 0) = [0]"
  "dependsOn exampleConfig exampleConditionMap 2 = [1, 0]"
  by (simp_all add: dependsOn_def exampleConfig_def exampleConditionMap_def
        List.map_filter_def resolveCondition_def)

lemma exampleConfig_acyclic: "\<not> hasCycle exampleConfig exampleConditionMap"
proof (rule no_cycle_if_children_smaller)
  fix i j
  assume "(i, j) \<in> dependencyGraph exampleConfig exampleConditionMap"
  then have i: "i < 3" and j: "j \<in> set (dependsOn exampleConfig exampleConditionMap i)"
    by (simp_all add: dependencyGraph_def exampleConfig_def)
  from i have "i = 0 \<or> i = Suc 0 \<or> i = 2" by arith
  with j show "j < i" by (auto simp: exampleConfig_dependsOn)
qed

lemma exampleConfig_resolvable:
  "fullyResolvable exampleConfig exampleConditionMap exampleMatcherMap"
  by (simp add: fullyResolvable_def exampleConfig_def exampleConditionMap_def
        exampleMatcherMap_def resolveCondition_def)

lemma exampleConfig_noDuplicate:
  "noDuplicateIndex exampleConfig exampleConditionMap"
  by (simp add: noDuplicateIndex_def duplicateIndex_def exampleConfig_def
        exampleConditionMap_def resolveCondition_def)


lemma exampleConfig_namedChildren:
  "namedChildren exampleConfig exampleConditionMap 0 = []"
  "namedChildren exampleConfig exampleConditionMap (Suc 0) = [0]"
  "namedChildren exampleConfig exampleConditionMap 2 = [0, 1]"
  by (simp_all add: namedChildren_def exampleConfig_def exampleConditionMap_def
        upt_rec numeral_eq_Suc)


lemma duplicateConfig_dependsOn:
  "dependsOn duplicateConfig duplicateConditionMap 0 = []"
  "dependsOn duplicateConfig duplicateConditionMap (Suc 0) = []"
  "dependsOn duplicateConfig duplicateConditionMap 2 = [0]"
  by (simp_all add: dependsOn_def duplicateConfig_def duplicateConditionMap_def
        List.map_filter_def resolveCondition_def)

lemma duplicateConfig_acyclic: "\<not> hasCycle duplicateConfig duplicateConditionMap"
proof (rule no_cycle_if_children_smaller)
  fix i j
  assume "(i, j) \<in> dependencyGraph duplicateConfig duplicateConditionMap"
  then have i: "i < 3" and j: "j \<in> set (dependsOn duplicateConfig duplicateConditionMap i)"
    by (simp_all add: dependencyGraph_def duplicateConfig_def)
  from i have "i = 0 \<or> i = Suc 0 \<or> i = 2" by arith
  with j show "j < i" by (auto simp: duplicateConfig_dependsOn)
qed

lemma duplicateConfig_resolvable:
  "fullyResolvable duplicateConfig duplicateConditionMap duplicateMatcherMap"
  by (simp add: fullyResolvable_def duplicateConfig_def duplicateConditionMap_def
        duplicateMatcherMap_def resolveCondition_def)

lemmas eval_init_simps =
  initConditions_def buildArena_def newNode_def ConditionTracker_def
  ConditionTracker.extend_def ConditionNode.fields_def resolveCondition_def finishInit_def
  duplicateIndex_def List.map_filter_def enumerate_eq_zip upt_rec numeral_eq_Suc

lemma exampleConfig_init:
  "initConditions exampleConfig exampleConditionMap exampleMatcherMap =
     Some (True,
       [\<lparr>mName = ''N0'', mIndex = 0, mInitialized = True, mTrackerIndex = {0},
          mNonSlicedConditionState = kUnknown, mSliced = False, mVariant = Atomic [0]\<rparr>,
        \<lparr>mName = ''N1'', mIndex = 1, mInitialized = True, mTrackerIndex = {0},
          mNonSlicedConditionState = kUnknown, mSliced = False,
          mVariant = Combinational opNOT [0]\<rparr>,
        \<lparr>mName = ''N2'', mIndex = 2, mInitialized = True, mTrackerIndex = {0},
          mNonSlicedConditionState = kUnknown, mSliced = False,
          mVariant = Combinational opAND [1, 0]\<rparr>],
       [False, False, False])"
  by (simp add: eval_init_simps exampleConfig_def exampleConditionMap_def exampleMatcherMap_def)




lemma duplicateConfig_init:
  "initConditions duplicateConfig duplicateConditionMap duplicateMatcherMap =
     Some (False, (buildArena duplicateConfig, [False, False, False]))"
  by (simp add: eval_init_simps duplicateConfig_def duplicateConditionMap_def
        duplicateMatcherMap_def)

lemma duplicateConfig_init_node:
  "init 4 duplicateConfig duplicateConditionMap duplicateMatcherMap 2
     (buildArena duplicateConfig, [False, False, False])
   = Some (False, (buildArena duplicateConfig, [False, False, True]))"
  by (simp add: eval_init_simps duplicateConfig_def duplicateConditionMap_def
        duplicateMatcherMap_def)

lemma init_acyclic_succeeds:
  assumes "\<not> hasCycle cfg cm" "fullyResolvable cfg cm mm" "noDuplicateIndex cfg cm"
    "i < length cfg"
  shows "\<exists>st'. init (Suc (length cfg)) cfg cm mm i
                 (buildArena cfg, replicate (length cfg) False) = Some (True, st')"
proof -
  have "\<exists>b st'. init (Suc (length (buildArena cfg))) cfg cm mm i
                 (buildArena cfg, replicate (length cfg) False) = Some (b, st')"
    by (rule init_returns) (simp_all add: length_buildArena)
  then obtain b st' where
    r: "init (Suc (length cfg)) cfg cm mm i
          (buildArena cfg, replicate (length cfg) False) = Some (b, st')"
    unfolding length_buildArena by blast
  have b
    by (rule init_no_failure[OF assms(1,2,3) _ _ assms(4) _ r])
       (simp_all add: length_buildArena)
  with r show ?thesis by (auto simp del: init.simps)
qed

lemma resolveCondition_Some:
  "resolveCondition cm n c = Some j \<longleftrightarrow> cm c = Some (int j) \<and> j < n"
  by (auto simp: resolveCondition_def split: option.splits)

text \<open>
  Where no child name is a duplicate index assignment, the indices the child names
  resolve to are the children the descriptor names.
\<close>

lemma namedChildren_dependsOn:
  assumes "list_all (\<lambda>c. \<not> duplicateIndex cfg cm c) (childNames (contents (cfg ! i)))"
  shows "set (namedChildren cfg cm i) = set (dependsOn cfg cm i)"
proof -
  have "cname (cfg ! j) = c"
    if "c \<in> set (childNames (contents (cfg ! i)))" "resolveCondition cm (length cfg) c = Some j"
    for c j
    using assms that by (auto simp: list_all_iff duplicateIndex_def)
  then show ?thesis
    by (auto simp: namedChildren_def dependsOn_def map_filter_mem list_ex_iff
          resolveCondition_Some)
qed

lemma initConditions_names:
  assumes "initConditions cfg cm mm = Some (b, (t, s))" "i < length cfg"
  shows "mName (t ! i) = cname (cfg ! i) \<and> mIndex (t ! i) = int i"
  using initConditions_frame[OF assms(1)] assms(2)
  by (simp add: initFrame_def nth_buildArena newNode_fields)

text \<open>
  C3, as stated, fails: the design makes a duplicate index assignment a failure of
  initialization, and a configuration can be acyclic and fully name-resolvable and still
  assign an index twice. In the example the map gives the index 0 to N0 and to N1; no
  name is unresolved and there is no cycle, and initialization fails, for the batch and
  for \<open>init\<close> on N2, whose child name N1 resolves to the node N0.
\<close>

theorem C3_counterexample:
  "\<not> hasCycle duplicateConfig duplicateConditionMap
   \<and> fullyResolvable duplicateConfig duplicateConditionMap duplicateMatcherMap
   \<and> initConditions duplicateConfig duplicateConditionMap duplicateMatcherMap
       = Some (False, (buildArena duplicateConfig, [False, False, False]))
   \<and> init 4 duplicateConfig duplicateConditionMap duplicateMatcherMap 2
         (buildArena duplicateConfig, [False, False, False])
       = Some (False, (buildArena duplicateConfig, [False, False, True]))"
  using duplicateConfig_acyclic duplicateConfig_resolvable duplicateConfig_init
    duplicateConfig_init_node
  by (simp del: init.simps)

text \<open>
  C3, amended. For every configuration without a dependency cycle in which every name
  resolves and no index is assigned twice, \<open>init\<close> called on any node in the fresh
  arena succeeds, initialization of the batch succeeds, and afterwards every node is
  initialized and the set returned by \<open>getLogTrackerIndex\<close> for it is the union of
  the node's own direct matcher dependencies and of the sets returned for every child it
  depends on: the nodes that carry the child names of its descriptor, for every child
  name the node at the index the map gives for it.
\<close>

theorem C3_acyclic_init_succeeds:
  assumes "\<not> hasCycle cfg cm" and "fullyResolvable cfg cm mm" and "noDuplicateIndex cfg cm"
  shows "\<exists>t s. initConditions cfg cm mm = Some (True, (t, s))
           \<and> length t = length cfg
           \<and> (\<forall>i < length cfg.
                 (\<exists>st'. init (Suc (length cfg)) cfg cm mm i
                         (buildArena cfg, replicate (length cfg) False) = Some (True, st'))
                 \<and> mInitialized (t ! i)
                 \<and> fst (getLogTrackerIndex (t ! i)) =
                     ownMatchers mm (contents (cfg ! i))
                       \<union> (\<Union>j \<in> set (namedChildren cfg cm i). fst (getLogTrackerIndex (t ! j)))
                 \<and> (\<forall>c \<in> set (childNames (contents (cfg ! i))).
                       \<exists>j \<in> set (namedChildren cfg cm i). cm c = Some (int j) \<and> mName (t ! j) = c))"
proof -
  from initConditions_acyclic_succeeds[OF assms] obtain t s where
    r: "initConditions cfg cm mm = Some (True, (t, s))" by blast
  note inv = initConditions_invariant[OF r]
  note ini = initConditions_success[OF r]
  from inv ini have nr: "\<forall>i < length cfg. nodeResolved cfg cm mm t i"
    by (auto simp: initInvariant_def)
  have node: "mInitialized (t ! i)
          \<and> fst (getLogTrackerIndex (t ! i)) =
              ownMatchers mm (contents (cfg ! i))
                \<union> (\<Union>j \<in> set (namedChildren cfg cm i). fst (getLogTrackerIndex (t ! j)))
          \<and> (\<forall>c \<in> set (childNames (contents (cfg ! i))).
                \<exists>j \<in> set (namedChildren cfg cm i). cm c = Some (int j) \<and> mName (t ! j) = c)"
    if i: "i < length cfg" for i
  proof -
    from nr i have n: "nodeResolved cfg cm mm t i" by simp
    then have nd: "list_all (\<lambda>c. \<not> duplicateIndex cfg cm c) (childNames (contents (cfg ! i)))"
      by (simp add: nodeResolved_def)
    note eq = namedChildren_dependsOn[OF nd]
    from n have u: "fst (getLogTrackerIndex (t ! i)) =
              ownMatchers mm (contents (cfg ! i))
                \<union> (\<Union>j \<in> set (namedChildren cfg cm i). fst (getLogTrackerIndex (t ! j)))"
      by (simp add: nodeResolved_def getLogTrackerIndex_def eq)
    have "\<exists>j \<in> set (namedChildren cfg cm i). cm c = Some (int j) \<and> mName (t ! j) = c"
      if c: "c \<in> set (childNames (contents (cfg ! i)))" for c
    proof -
      from n c obtain j where j: "resolveCondition cm (length cfg) c = Some j"
        by (cases "contents (cfg ! i)") (auto simp: nodeResolved_def list_all_iff)
      with c have jd: "j \<in> set (dependsOn cfg cm i)"
        by (auto simp: dependsOn_def map_filter_mem)
      from nd c j have "cname (cfg ! j) = c" by (auto simp: list_all_iff duplicateIndex_def)
      with initConditions_names[OF r dependsOn_less[OF jd]] have "mName (t ! j) = c" by simp
      moreover from j have "cm c = Some (int j)" by (simp add: resolveCondition_Some)
      ultimately show ?thesis using jd eq by blast
    qed
    with u ini i show ?thesis by blast
  qed
  from inv have "length t = length cfg" by (simp add: initInvariant_def)
  with node r init_acyclic_succeeds[OF assms] show ?thesis by blast
qed

theorem C3_acyclic_init_succeeds_witness:
  "\<not> hasCycle exampleConfig exampleConditionMap
   \<and> fullyResolvable exampleConfig exampleConditionMap exampleMatcherMap
   \<and> noDuplicateIndex exampleConfig exampleConditionMap
   \<and> (\<exists>t s. initConditions exampleConfig exampleConditionMap exampleMatcherMap = Some (True, (t, s))
         \<and> length t = 3
         \<and> mInitialized (t ! 2)
         \<and> fst (getLogTrackerIndex (t ! 2)) =
             fst (getLogTrackerIndex (t ! 0)) \<union> fst (getLogTrackerIndex (t ! 1))
         \<and> fst (getLogTrackerIndex (t ! 0)) = {0}
         \<and> mName (t ! 0) = ''N0'' \<and> mName (t ! 1) = ''N1'')"
proof -
  from C3_acyclic_init_succeeds[OF exampleConfig_acyclic exampleConfig_resolvable
         exampleConfig_noDuplicate]
  obtain t s where
    r: "initConditions exampleConfig exampleConditionMap exampleMatcherMap = Some (True, (t, s))"
    and l: "length t = length exampleConfig"
    and a: "\<forall>i < length exampleConfig.
                 (\<exists>st'. init (Suc (length exampleConfig)) exampleConfig exampleConditionMap
                         exampleMatcherMap i
                         (buildArena exampleConfig, replicate (length exampleConfig) False)
                       = Some (True, st'))
                 \<and> mInitialized (t ! i)
                 \<and> fst (getLogTrackerIndex (t ! i)) =
                     ownMatchers exampleMatcherMap (contents (exampleConfig ! i))
                       \<union> (\<Union>j \<in> set (namedChildren exampleConfig exampleConditionMap i).
                             fst (getLogTrackerIndex (t ! j)))
                 \<and> (\<forall>c \<in> set (childNames (contents (exampleConfig ! i))).
                       \<exists>j \<in> set (namedChildren exampleConfig exampleConditionMap i).
                          exampleConditionMap c = Some (int j) \<and> mName (t ! j) = c)"
    by (elim exE conjE) (rule that)
  have n: "length exampleConfig = 3" by (simp add: exampleConfig_def)
  have i2: "2 < length exampleConfig" and i0: "0 < length exampleConfig" by (simp_all add: n)
  have c2: "contents (exampleConfig ! 2) = Combination opAND [''N1'', ''N0'']"
    and c0: "contents (exampleConfig ! 0) = SimpleCondition [''M0'']"
    by (simp_all add: exampleConfig_def)
  note at2 = a[rule_format, OF i2, THEN conjunct2]
  note at0 = a[rule_format, OF i0, THEN conjunct2]
  from at2 have a2: "mInitialized (t ! 2)
       \<and> fst (getLogTrackerIndex (t ! 2)) =
             fst (getLogTrackerIndex (t ! 0)) \<union> fst (getLogTrackerIndex (t ! 1))"
    by (simp add: exampleConfig_namedChildren(3) c2)
  from at0 have a0: "fst (getLogTrackerIndex (t ! 0)) = {0}"
    by (simp add: exampleConfig_namedChildren(1) c0 exampleMatcherMap_def)
  from at2 have "\<forall>c \<in> set [''N1'', ''N0''].
                       \<exists>j \<in> set [0, 1].
                          exampleConditionMap c = Some (int j) \<and> mName (t ! j) = c"
    by (simp add: exampleConfig_namedChildren(3) c2)
  then have names: "mName (t ! 0) = ''N0''" "mName (t ! 1) = ''N1''"
    by (auto simp: exampleConditionMap_def)
  from l n have l3: "length t = 3" by simp
  from r l3 a2 a0 names
  have "\<exists>t s. initConditions exampleConfig exampleConditionMap exampleMatcherMap = Some (True, (t, s))
         \<and> length t = 3
         \<and> mInitialized (t ! 2)
         \<and> fst (getLogTrackerIndex (t ! 2)) =
             fst (getLogTrackerIndex (t ! 0)) \<union> fst (getLogTrackerIndex (t ! 1))
         \<and> fst (getLogTrackerIndex (t ! 0)) = {0}
         \<and> mName (t ! 0) = ''N0'' \<and> mName (t ! 1) = ''N1''"
    by (intro exI[of _ t] exI[of _ s]) (simp del: init.simps)
  with exampleConfig_acyclic exampleConfig_resolvable exampleConfig_noDuplicate
  show ?thesis by (intro conjI)
qed





section \<open>Properties of evaluation\<close>

lemma initConditions_wellFormed:
  assumes "initConditions cfg cm mm = Some (True, (t, s))"
  shows "wellFormedArena cfg cm mm t"
  using initConditions_invariant[OF assms] initConditions_success[OF assms]
  by (auto simp: wellFormedArena_def initInvariant_def nodeResolved_def)

lemma evalInvariant_fresh:
  assumes "initConditions cfg cm mm = Some (True, (t, s))" "length changed0 = length cfg"
  shows "evalInvariant cfg cm mm (freshEvalState t changed0)"
  using initConditions_wellFormed[OF assms(1)] assms(2)
  by (simp add: evalInvariant_def freshEvalState_def wellFormedArena_def)

lemma wellFormed_children:
  assumes "wellFormedArena cfg cm mm t" "i < length cfg"
    "mVariant (t ! i) = Combinational oper children"
  shows "children = dependsOn cfg cm i" "list_all (\<lambda>c. c < length cfg) children"
proof -
  from assms have "resolvedVariant cfg cm mm i = Combinational oper children"
    by (simp add: wellFormedArena_def)
  then show c: "children = dependsOn cfg cm i"
    by (auto simp: resolvedVariant_def split: ConditionContents.splits)
  show "list_all (\<lambda>c. c < length cfg) children"
    unfolding c list_all_iff using dependsOn_less by blast
qed

subsection \<open>What one call and one pass do\<close>

text \<open>
  A call that has an outcome writes the node's aggregate state and its slot of the cache,
  sets the node's flag by comparing the new value with the slot, and touches nothing else.
\<close>

lemma evaluateCondition_effect:
  assumes "evaluateCondition sr cr v w i (t, c, ch) = Some (t', c', ch')"
  shows "\<exists>x. i < length t \<and> i < length c \<and> i < length ch
             \<and> t' = t[i := (t ! i)\<lparr> mNonSlicedConditionState := x \<rparr>]
             \<and> c' = c[i := x] \<and> ch' = ch[i := (x \<noteq> c ! i)]"
  using assms
  by (auto simp: evaluateCondition_def split: if_splits option.splits Variant.splits)



lemma wellFormedArena_update:
  assumes "wellFormedArena cfg cm mm t"
  shows "wellFormedArena cfg cm mm (t[i := (t ! i)\<lparr> mNonSlicedConditionState := x \<rparr>])"
proof (cases "i < length t")
  case True
  with assms show ?thesis by (auto simp: wellFormedArena_def nth_list_update)
next
  case False
  with assms show ?thesis by (simp add: list_update_beyond)
qed

lemma mSliced_update:
  "mSliced (t[i := (t ! i)\<lparr> mNonSlicedConditionState := x \<rparr>] ! k) = mSliced (t ! k)"
  by (cases "i < length t"; cases "k = i") (simp_all add: list_update_beyond)

lemma evaluateCondition_invariant:
  assumes "evaluateCondition sr cr v w i st = Some st'" "evalInvariant cfg cm mm st"
  shows "evalInvariant cfg cm mm st' \<and> (\<forall>k. mSliced (fst st' ! k) = mSliced (fst st ! k))"
proof -
  obtain t c ch where st: "st = (t, c, ch)" by (cases st)
  obtain t' c' ch' where st': "st' = (t', c', ch')" by (cases st')
  from evaluateCondition_effect[OF assms(1)[unfolded st st']] obtain x where
    e: "t' = t[i := (t ! i)\<lparr> mNonSlicedConditionState := x \<rparr>]"
      "c' = c[i := x]" "ch' = ch[i := (x \<noteq> c ! i)]"
    by blast
  from assms(2) wellFormedArena_update[of cfg cm mm t i x] show ?thesis
    by (simp add: st st' e evalInvariant_def mSliced_update)
qed

lemma evaluateNodes_invariant:
  "\<lbrakk>evaluateNodes sr cr v w is st = Some st'; evalInvariant cfg cm mm st\<rbrakk>
   \<Longrightarrow> evalInvariant cfg cm mm st' \<and> (\<forall>k. mSliced (fst st' ! k) = mSliced (fst st ! k))"
proof (induction "is" arbitrary: w st)
  case Nil
  then show ?case by simp
next
  case (Cons i rest)
  from Cons.prems(1) obtain st1 where
    s1: "evaluateCondition sr cr v w i st = Some st1"
    and r1: "evaluateNodes sr cr v (insert i w) rest st1 = Some st'"
    by (auto split: option.splits)
  note a = evaluateCondition_invariant[OF s1 Cons.prems(2)]
  from Cons.IH[OF r1 conjunct1[OF a]] a show ?case by simp
qed

lemma evaluatePass_invariant:
  assumes "evaluatePass sr cr v st = Some st'" "evalInvariant cfg cm mm st"
  shows "evalInvariant cfg cm mm st' \<and> (\<forall>k. mSliced (fst st' ! k) = mSliced (fst st ! k))"
  using evaluateNodes_invariant[OF assms(1)[unfolded evaluatePass_def] assms(2)] .

lemma evaluatePasses_invariant:
  "\<lbrakk>evaluatePasses sr cr vs st = Some st'; evalInvariant cfg cm mm st\<rbrakk>
   \<Longrightarrow> evalInvariant cfg cm mm st' \<and> (\<forall>k. mSliced (fst st' ! k) = mSliced (fst st ! k))"
proof (induction vs arbitrary: st)
  case Nil
  then show ?case by simp
next
  case (Cons v vs)
  from Cons.prems(1) obtain st1 where
    s1: "evaluatePass sr cr v st = Some st1"
    and r1: "evaluatePasses sr cr vs st1 = Some st'"
    by (auto split: option.splits)
  note a = evaluatePass_invariant[OF s1 Cons.prems(2)]
  from Cons.IH[OF r1 conjunct1[OF a]] a show ?case by simp
qed

subsection \<open>Passes return\<close>






subsection \<open>Conditions declared sliced after initialization\<close>

lemma nth_markSliced:
  "length flags = length t \<Longrightarrow> i < length t
     \<Longrightarrow> markSliced flags t ! i = setSliced (flags ! i) (t ! i)"
  by (simp add: markSliced_def)

lemma length_markSliced: "length flags = length t \<Longrightarrow> length (markSliced flags t) = length t"
  by (simp add: markSliced_def)

lemma wellFormedArena_markSliced:
  assumes "wellFormedArena cfg cm mm t" "length flags = length cfg"
  shows "wellFormedArena cfg cm mm (markSliced flags t)"
  using assms
  by (simp add: wellFormedArena_def length_markSliced nth_markSliced setSliced_def)

lemma evalInvariant_fresh_sliced:
  assumes "initConditions cfg cm mm = Some (True, (t, s))" "length changed0 = length cfg"
    "length flags = length cfg"
  shows "evalInvariant cfg cm mm (freshEvalState (markSliced flags t) changed0)"
proof -
  note wf = initConditions_wellFormed[OF assms(1)]
  then have lt: "length t = length cfg" by (simp add: wellFormedArena_def)
  from wellFormedArena_markSliced[OF wf assms(3)] assms(2,3) lt
  show ?thesis
    by (simp add: evalInvariant_def freshEvalState_def length_markSliced)
qed


lemma exampleConfig_init_arena:
  "initConditions exampleConfig exampleConditionMap exampleMatcherMap =
     Some (True, (exampleArena, [False, False, False]))"
  by (simp add: exampleConfig_init exampleArena_def)

lemmas eval_pass_simps =
  evaluatePass_def evaluateCondition_def freshEvalState_def exampleArena_def
  exampleSimpleRule_def upt_rec numeral_eq_Suc

text \<open>
  The scenario of the design: one event on which the matcher of N0 reports MATCHED
  yields the cache TRUE, FALSE, FALSE, with every change flag set.
\<close>

lemma example_scenario:
  "processEvents exampleSimpleRule exampleCombinationRule exampleConfig exampleConditionMap
     exampleMatcherMap [False, False, False] [False, False, False] [[kMatched]]
   = Inr [([kTrue, kFalse, kFalse], [True, True, True])]"
  by (simp add: processEvents_def exampleConfig_init_arena eval_pass_simps markSliced_def
        setSliced_def)

lemma example_sliced_first_pass:
  "evaluatePasses exampleSimpleRule exampleCombinationRule [[kMatched]]
     (freshEvalState (markSliced [True, False, False] exampleArena) [False, False, False])
   = Some (slicedArenaAfterEvent, [kTrue, kFalse, kFalse], [True, True, True])"
  by (simp add: eval_pass_simps markSliced_def setSliced_def slicedArenaAfterEvent_def)




subsection \<open>Determinism\<close>








section \<open>Properties of the query with parameters\<close>

lemma length_overrideCache: "length (overrideCache c W g) = length c"
  by (simp add: overrideCache_def)

lemma nth_overrideCache:
  "k < length c \<Longrightarrow> overrideCache c W g ! k = (if k \<in> W then g k else c ! k)"
  by (simp add: overrideCache_def)

lemma overrideCache_empty: "overrideCache c {} g = c"
  by (simp add: overrideCache_def map_nth)

lemma overrideCache_twice:
  "overrideCache (overrideCache c W1 g1) W2 g2
     = overrideCache c (W1 \<union> W2) (\<lambda>k. if k \<in> W2 then g2 k else g1 k)"
  by (rule nth_equalityI) (auto simp: length_overrideCache nth_overrideCache)

lemma overrideCache_update:
  "(overrideCache c W g)[i := x] = overrideCache c (insert i W) (g(i := x))"
  by (rule nth_equalityI)
     (auto simp: length_overrideCache nth_overrideCache nth_list_update)

lemma overrideCache_idem: "overrideCache (overrideCache c W g) W g = overrideCache c W g"
  by (rule nth_equalityI) (auto simp: length_overrideCache nth_overrideCache)

lemma map_nth_overrideCache:
  assumes "set ks \<subseteq> W" "\<forall>k \<in> set ks. k < length c"
  shows "map (\<lambda>k. overrideCache c W g ! k) ks = map g ks"
  using assms by (auto simp: nth_overrideCache)

subsection \<open>What a query leaves in the cache\<close>

lemma query_invalid:
  "\<not> (i < length t \<and> i < length c \<and> mInitialized (t ! i))
     \<Longrightarrow> isConditionMetSliced (Suc fuel) slr cr p i (t, c) = None"
  by auto

lemma query_Atomic:
  "\<lbrakk>i < length t; i < length c; mInitialized (t ! i); mVariant (t ! i) = Atomic ks\<rbrakk>
     \<Longrightarrow> isConditionMetSliced (Suc fuel) slr cr p i (t, c)
           = Some (t, c[i := slr (t ! i) (p (mName (t ! i)))])"
  by simp

lemma query_Combinational:
  "\<lbrakk>i < length t; i < length c; mInitialized (t ! i);
    mVariant (t ! i) = Combinational oper children\<rbrakk>
     \<Longrightarrow> isConditionMetSliced (Suc fuel) slr cr p i (t, c)
           = (case queryChildren fuel slr cr p children (t, c) of
                None \<Rightarrow> None
              | Some (t', c') \<Rightarrow>
                  if i < length c' \<and> list_all (\<lambda>k. k < length c') children
                  then Some (t', c'[i := cr oper (map (\<lambda>k. c' ! k) children)])
                  else None)"
  by simp

lemma queryChildren_shape:
  assumes IH: "\<And>j. queryShape t (\<lambda>c. isConditionMetSliced fuel slr cr p j (t, c)) {j}"
  shows "queryShape t (\<lambda>c. queryChildren fuel slr cr p cs (t, c)) (set cs)"
proof (induction cs)
  case Nil
  have "\<forall>c. length c = length t \<longrightarrow>
          queryChildren fuel slr cr p [] (t, c) = Some (t, overrideCache c {} (\<lambda>k. kUnknown))"
    by (simp add: overrideCache_empty)
  then show ?case unfolding queryShape_def by (intro disjI2 exI[of _ "{}"]) auto
next
  case (Cons j cs)
  from IH[of j] show ?case unfolding queryShape_def
  proof
    assume "\<forall>c. length c = length t \<longrightarrow> isConditionMetSliced fuel slr cr p j (t, c) = None"
    then show "(\<forall>c. length c = length t \<longrightarrow> queryChildren fuel slr cr p (j # cs) (t, c) = None)
       \<or> (\<exists>W g. set (j # cs) \<subseteq> W \<and> (\<forall>c. length c = length t \<longrightarrow>
              queryChildren fuel slr cr p (j # cs) (t, c) = Some (t, overrideCache c W g)))"
      by simp
  next
    assume "\<exists>W g. {j} \<subseteq> W \<and> (\<forall>c. length c = length t \<longrightarrow>
              isConditionMetSliced fuel slr cr p j (t, c) = Some (t, overrideCache c W g))"
    then obtain W1 g1 where j: "j \<in> W1"
      and q1: "\<And>c. length c = length t \<Longrightarrow>
              isConditionMetSliced fuel slr cr p j (t, c) = Some (t, overrideCache c W1 g1)"
      by auto
    from Cons.IH show "(\<forall>c. length c = length t \<longrightarrow> queryChildren fuel slr cr p (j # cs) (t, c) = None)
       \<or> (\<exists>W g. set (j # cs) \<subseteq> W \<and> (\<forall>c. length c = length t \<longrightarrow>
              queryChildren fuel slr cr p (j # cs) (t, c) = Some (t, overrideCache c W g)))"
      unfolding queryShape_def
    proof
      assume n: "\<forall>c. length c = length t \<longrightarrow> queryChildren fuel slr cr p cs (t, c) = None"
      have "\<forall>c. length c = length t \<longrightarrow> queryChildren fuel slr cr p (j # cs) (t, c) = None"
        using q1 n by (simp add: length_overrideCache)
      then show ?thesis ..
    next
      assume "\<exists>W g. set cs \<subseteq> W \<and> (\<forall>c. length c = length t \<longrightarrow>
                queryChildren fuel slr cr p cs (t, c) = Some (t, overrideCache c W g))"
      then obtain W2 g2 where cs: "set cs \<subseteq> W2"
        and q2: "\<And>c. length c = length t \<Longrightarrow>
                queryChildren fuel slr cr p cs (t, c) = Some (t, overrideCache c W2 g2)"
        by auto
      have "\<forall>c. length c = length t \<longrightarrow> queryChildren fuel slr cr p (j # cs) (t, c)
              = Some (t, overrideCache c (W1 \<union> W2) (\<lambda>k. if k \<in> W2 then g2 k else g1 k))"
        using q1 q2 by (simp add: length_overrideCache overrideCache_twice)
      moreover have "set (j # cs) \<subseteq> W1 \<union> W2" using j cs by auto
      ultimately show ?thesis by blast
    qed
  qed
qed

lemma isConditionMetSliced_shape:
  "queryShape t (\<lambda>c. isConditionMetSliced fuel slr cr p i (t, c)) {i}"
proof (induction fuel arbitrary: i)
  case 0
  show ?case by (simp add: queryShape_def)
next
  case (Suc fuel)
  show ?case
  proof (cases "i < length t \<and> mInitialized (t ! i)")
    case False
    then have "\<forall>c. length c = length t \<longrightarrow>
                 isConditionMetSliced (Suc fuel) slr cr p i (t, c) = None"
      by auto
    then show ?thesis by (simp add: queryShape_def)
  next
    case ok: True
    show ?thesis
    proof (cases "mVariant (t ! i)")
      case (Atomic ks)
      have "\<forall>c. length c = length t \<longrightarrow>
              isConditionMetSliced (Suc fuel) slr cr p i (t, c)
                = Some (t, overrideCache c {i} (\<lambda>k. slr (t ! i) (p (mName (t ! i)))))"
      proof (intro allI impI)
        fix c :: "ConditionState list" assume l: "length c = length t"
        have "c[i := slr (t ! i) (p (mName (t ! i)))]
                = (overrideCache c {} (\<lambda>k. kUnknown))[i := slr (t ! i) (p (mName (t ! i)))]"
          by (simp add: overrideCache_empty)
        also have "\<dots> = overrideCache c {i} ((\<lambda>k. kUnknown)(i := slr (t ! i) (p (mName (t ! i)))))"
          by (simp add: overrideCache_update)
        also have "\<dots> = overrideCache c {i} (\<lambda>k. slr (t ! i) (p (mName (t ! i))))"
          by (rule nth_equalityI) (auto simp: length_overrideCache nth_overrideCache)
        finally show "isConditionMetSliced (Suc fuel) slr cr p i (t, c)
                = Some (t, overrideCache c {i} (\<lambda>k. slr (t ! i) (p (mName (t ! i)))))"
          using ok l Atomic by (simp add: query_Atomic del: isConditionMetSliced.simps)
      qed
      then show ?thesis unfolding queryShape_def by (intro disjI2 exI[of _ "{i}"]) auto
    next
      case (Combinational oper children)
      have unf: "isConditionMetSliced (Suc fuel) slr cr p i (t, c)
           = (case queryChildren fuel slr cr p children (t, c) of
                None \<Rightarrow> None
              | Some (t', c') \<Rightarrow>
                  if i < length c' \<and> list_all (\<lambda>k. k < length c') children
                  then Some (t', c'[i := cr oper (map (\<lambda>k. c' ! k) children)])
                  else None)" if "length c = length t" for c
        using ok that Combinational by (intro query_Combinational) simp_all
      from queryChildren_shape[of t fuel slr cr p children, OF Suc.IH]
      show ?thesis unfolding queryShape_def
      proof
        assume "\<forall>c. length c = length t \<longrightarrow> queryChildren fuel slr cr p children (t, c) = None"
        then have "\<forall>c. length c = length t \<longrightarrow>
                 isConditionMetSliced (Suc fuel) slr cr p i (t, c) = None"
          using unf by simp
        then show "(\<forall>c. length c = length t \<longrightarrow>
                      isConditionMetSliced (Suc fuel) slr cr p i (t, c) = None)
          \<or> (\<exists>W g. {i} \<subseteq> W \<and> (\<forall>c. length c = length t \<longrightarrow>
                 isConditionMetSliced (Suc fuel) slr cr p i (t, c) = Some (t, overrideCache c W g)))"
          ..
      next
        assume "\<exists>W g. set children \<subseteq> W \<and> (\<forall>c. length c = length t \<longrightarrow>
                  queryChildren fuel slr cr p children (t, c) = Some (t, overrideCache c W g))"
        then obtain W g where ch: "set children \<subseteq> W"
          and q: "\<And>c. length c = length t \<Longrightarrow>
                  queryChildren fuel slr cr p children (t, c) = Some (t, overrideCache c W g)"
          by auto
        show "(\<forall>c. length c = length t \<longrightarrow>
                      isConditionMetSliced (Suc fuel) slr cr p i (t, c) = None)
          \<or> (\<exists>W g. {i} \<subseteq> W \<and> (\<forall>c. length c = length t \<longrightarrow>
                 isConditionMetSliced (Suc fuel) slr cr p i (t, c) = Some (t, overrideCache c W g)))"
        proof (cases "list_all (\<lambda>k. k < length t) children")
          case False
          have "\<forall>c. length c = length t \<longrightarrow>
                 isConditionMetSliced (Suc fuel) slr cr p i (t, c) = None"
            using unf q False by (simp add: length_overrideCache)
          then show ?thesis ..
        next
          case True
          have "\<forall>c. length c = length t \<longrightarrow>
                 isConditionMetSliced (Suc fuel) slr cr p i (t, c)
                   = Some (t, overrideCache c (insert i W) (g(i := cr oper (map g children))))"
          proof (intro allI impI)
            fix c :: "ConditionState list" assume l: "length c = length t"
            from True l have "\<forall>k \<in> set children. k < length c" by (simp add: list_all_iff)
            from map_nth_overrideCache[OF ch this]
            have "map (\<lambda>k. overrideCache c W g ! k) children = map g children" .
            with unf[OF l] q[OF l] True l ok
            show "isConditionMetSliced (Suc fuel) slr cr p i (t, c)
                   = Some (t, overrideCache c (insert i W) (g(i := cr oper (map g children))))"
              by (simp add: length_overrideCache overrideCache_update)
          qed
          then show ?thesis by (intro disjI2 exI[of _ "insert i W"]) auto
        qed
      qed
    qed
  qed
qed

subsection \<open>The query returns\<close>

lemma wellFormed_acyclic:
  assumes "wellFormedArena cfg cm mm t"
  shows "(k, k) \<notin> (dependencyGraph cfg cm)\<^sup>+"
proof
  assume k: "(k, k) \<in> (dependencyGraph cfg cm)\<^sup>+"
  then obtain j where "(k, j) \<in> dependencyGraph cfg cm" by (auto dest: tranclD)
  then have "k < length cfg" by (simp add: dependencyGraph_def)
  moreover from k have "reachesCycle cfg cm k" by (auto simp: reachesCycle_def)
  ultimately show False using assms by (simp add: wellFormedArena_def)
qed

lemma queryChildren_returns_aux:
  assumes IH: "\<And>j c. \<lbrakk>j \<in> set cs; length c = length t\<rbrakk>
                 \<Longrightarrow> isConditionMetSliced fuel slr cr p j (t, c) \<noteq> None"
  shows "length c = length t \<Longrightarrow> queryChildren fuel slr cr p cs (t, c) \<noteq> None"
  using IH
proof (induction cs arbitrary: c)
  case Nil
  then show ?case by simp
next
  case (Cons j cs)
  from Cons.prems(2)[of j c] Cons.prems(1)
  have r: "isConditionMetSliced fuel slr cr p j (t, c) \<noteq> None" by simp
  from isConditionMetSliced_shape[of t fuel slr cr p j] r Cons.prems(1)
  obtain W g where
    q: "isConditionMetSliced fuel slr cr p j (t, c) = Some (t, overrideCache c W g)"
    unfolding queryShape_def by auto
  have "queryChildren fuel slr cr p cs (t, overrideCache c W g) \<noteq> None"
    by (rule Cons.IH) (use Cons.prems(2) in \<open>simp_all add: length_overrideCache Cons.prems(1)\<close>)
  with q show ?case by simp
qed

lemma isConditionMetSliced_returns_aux:
  assumes wf: "wellFormedArena cfg cm mm t"
  shows "\<lbrakk>i < length cfg; A \<subseteq> {..<length cfg};
          \<forall>a \<in> A. (a, i) \<in> (dependencyGraph cfg cm)\<^sup>+;
          length cfg < fuel + card A; length c = length t\<rbrakk>
         \<Longrightarrow> isConditionMetSliced fuel slr cr p i (t, c) \<noteq> None"
proof (induction fuel arbitrary: i A c)
  case 0
  from "0.prems"(2) have "card A \<le> card {..<length cfg}" by (intro card_mono) simp_all
  with "0.prems"(4) show ?case by simp
next
  case (Suc fuel)
  from wf Suc.prems(1) have lt: "length t = length cfg" and ini: "mInitialized (t ! i)"
    by (simp_all add: wellFormedArena_def)
  have finA: "finite A" using Suc.prems(2) by (rule finite_subset) simp
  have iA: "i \<notin> A"
  proof
    assume "i \<in> A"
    with Suc.prems(3) have "(i, i) \<in> (dependencyGraph cfg cm)\<^sup>+" by blast
    with wellFormed_acyclic[OF wf] show False by blast
  qed
  show ?case
  proof (cases "mVariant (t ! i)")
    case (Atomic ks)
    with Suc.prems lt ini show ?thesis
      by (simp add: query_Atomic del: isConditionMetSliced.simps)
  next
    case (Combinational oper children)
    note ch = wellFormed_children[OF wf Suc.prems(1) Combinational]
    have kids: "isConditionMetSliced fuel slr cr p j (t, c') \<noteq> None"
      if "j \<in> set children" "length c' = length t" for j c'
    proof (rule Suc.IH[of j "insert i A"])
      show "j < length cfg" using that(1) ch(2) by (simp add: list_all_iff)
      show "insert i A \<subseteq> {..<length cfg}" using Suc.prems(1,2) by simp
      have e: "(i, j) \<in> dependencyGraph cfg cm"
        using that(1) ch(1) Suc.prems(1) by (simp add: dependencyGraph_def)
      show "\<forall>a \<in> insert i A. (a, j) \<in> (dependencyGraph cfg cm)\<^sup>+"
        using Suc.prems(3) e by (auto intro: trancl_into_trancl)
      show "length cfg < fuel + card (insert i A)"
        using Suc.prems(4) finA iA by simp
      show "length c' = length t" by (rule that(2))
    qed
    from queryChildren_returns_aux[of children t fuel slr cr p c, OF kids Suc.prems(5)]
    have r: "queryChildren fuel slr cr p children (t, c) \<noteq> None" by simp
    from queryChildren_shape[of t fuel slr cr p children, OF isConditionMetSliced_shape]
      r Suc.prems(5)
    obtain W g where
      q: "queryChildren fuel slr cr p children (t, c) = Some (t, overrideCache c W g)"
      unfolding queryShape_def by auto
    from ch(2) lt Suc.prems(5) have "list_all (\<lambda>k. k < length c) children" by simp
    with q Suc.prems(1,5) lt ini Combinational show ?thesis
      by (simp add: query_Combinational length_overrideCache del: isConditionMetSliced.simps)
  qed
qed

lemma isConditionMetSliced_returns:
  assumes wf: "wellFormedArena cfg cm mm t" and i: "i < length cfg"
    and l: "length (c :: ConditionState list) = length t"
  shows "\<exists>W g. i \<in> W \<and> (\<forall>c. length c = length t \<longrightarrow>
           isConditionMetSliced (Suc (length t)) slr cr p i (t, c) = Some (t, overrideCache c W g))"
proof -
  from wf have lt: "length t = length cfg" by (simp add: wellFormedArena_def)
  have r: "isConditionMetSliced (Suc (length t)) slr cr p i (t, c) \<noteq> None"
    by (rule isConditionMetSliced_returns_aux[OF wf i, of "{}"]) (simp_all add: lt l[unfolded lt])
  have nn: "\<not> (\<forall>c. length c = length t \<longrightarrow>
                isConditionMetSliced (Suc (length t)) slr cr p i (t, c) = None)"
  proof
    assume "\<forall>c. length c = length t \<longrightarrow>
                isConditionMetSliced (Suc (length t)) slr cr p i (t, c) = None"
    then have "length c = length t \<longrightarrow>
                isConditionMetSliced (Suc (length t)) slr cr p i (t, c) = None"
      by (rule spec)
    then have "isConditionMetSliced (Suc (length t)) slr cr p i (t, c) = None"
      using l by (rule mp)
    with r show False by (rule notE)
  qed
  have "queryShape t (\<lambda>c. isConditionMetSliced (Suc (length t)) slr cr p i (t, c)) {i}"
    by (rule isConditionMetSliced_shape)
  then show ?thesis unfolding queryShape_def
  proof (elim disjE exE conjE)
    assume "\<forall>c. length c = length t \<longrightarrow>
                isConditionMetSliced (Suc (length t)) slr cr p i (t, c) = None"
    with nn show ?thesis by (rule notE)
  next
    fix W g
    assume "{i} \<subseteq> W" and "\<forall>c. length c = length t \<longrightarrow>
           isConditionMetSliced (Suc (length t)) slr cr p i (t, c) = Some (t, overrideCache c W g)"
    then show ?thesis by (intro exI[of _ W] exI[of _ g] conjI) (simp_all del: isConditionMetSliced.simps)
  qed
qed

lemma isConditionMetSlicedTimes_fixed:
  assumes q: "\<And>c. length c = length t \<Longrightarrow>
           isConditionMetSliced (Suc (length t)) slr cr p i (t, c) = Some (t, overrideCache c W g)"
  shows "length c = length t \<Longrightarrow>
           isConditionMetSlicedTimes (Suc k) slr cr p i (t, c) = Some (t, overrideCache c W g)"
proof (induction k arbitrary: c)
  case 0
  with q[of c] show ?case by (simp del: isConditionMetSliced.simps)
next
  case (Suc k)
  have "isConditionMetSlicedTimes (Suc (Suc k)) slr cr p i (t, c)
          = isConditionMetSlicedTimes (Suc k) slr cr p i (t, overrideCache c W g)"
    using q[OF Suc.prems] by (simp del: isConditionMetSliced.simps)
  also have "\<dots> = Some (t, overrideCache (overrideCache c W g) W g)"
    by (rule Suc.IH) (simp add: length_overrideCache Suc.prems)
  finally show ?case by (simp add: overrideCache_idem)
qed

text \<open>
  C5. In every state a run reaches from a successfully initialized configuration,
  whichever conditions were then declared sliced, the query with parameters, called any
  number of times in a row on the same node with the same parameters, returns every time,
  leaves the same answer in the node's cache slot every time, and no call changes what
  the argument-free \<open>isConditionMet()\<close> returns for any node.
\<close>

theorem C5_sliced_query_idempotent:
  assumes "initConditions cfg cm mm = Some (True, (trackers0, stack))"
    and "length changed0 = length cfg"
    and "length sliced = length cfg"
    and "evaluatePasses sr cr events (freshEvalState (markSliced sliced trackers0) changed0)
           = Some (trackers, cache, changed)"
    and "i < length cfg"
  shows "\<exists>answer. \<forall>k. \<exists>trackers' cache'.
           isConditionMetSlicedTimes (Suc k) slr cr conditionParameters i (trackers, cache)
             = Some (trackers', cache')
           \<and> cache' ! i = answer
           \<and> map (\<lambda>n. fst (isConditionMet n)) trackers'
               = map (\<lambda>n. fst (isConditionMet n)) trackers"
proof -
  from evaluatePasses_invariant[OF assms(4) evalInvariant_fresh_sliced[OF assms(1,2,3)]]
  have inv: "evalInvariant cfg cm mm (trackers, cache, changed)" by simp
  then have wf: "wellFormedArena cfg cm mm trackers" and lc: "length cache = length cfg"
    by (simp_all add: evalInvariant_def)
  from wf have lt: "length trackers = length cfg" by (simp add: wellFormedArena_def)
  from lc lt have l: "length cache = length trackers" by simp
  from isConditionMetSliced_returns[OF wf assms(5) l, of slr cr conditionParameters]
  obtain W g where
    q: "\<And>c. length c = length trackers \<Longrightarrow>
          isConditionMetSliced (Suc (length trackers)) slr cr conditionParameters i (trackers, c)
            = Some (trackers, overrideCache c W g)"
    by blast
  have "\<forall>k. isConditionMetSlicedTimes (Suc k) slr cr conditionParameters i (trackers, cache)
             = Some (trackers, overrideCache cache W g)"
    using isConditionMetSlicedTimes_fixed[of trackers slr cr conditionParameters i W g cache, OF q l]
    by blast
  then show ?thesis by (intro exI[of _ "overrideCache cache W g ! i"]) simp
qed

subsection \<open>The query on the example\<close>

lemma example_query:
  "isConditionMetSliced 4 exampleSlicedRule exampleCombinationRule
     [''N0'' \<mapsto> [(''uid'', ''8'')]] 2 (slicedArenaAfterEvent, [kTrue, kFalse, kFalse])
   = Some (slicedArenaAfterEvent, [kFalse, kTrue, kFalse])"
  by (simp add: slicedArenaAfterEvent_def exampleArena_def exampleSlicedRule_def numeral_eq_Suc)

theorem C5_sliced_query_idempotent_witness:
  "initConditions exampleConfig exampleConditionMap exampleMatcherMap
     = Some (True, (exampleArena, [False, False, False]))
   \<and> length [False, False, False] = length exampleConfig
   \<and> length [True, False, False] = length exampleConfig
   \<and> evaluatePasses exampleSimpleRule exampleCombinationRule [[kMatched]]
        (freshEvalState (markSliced [True, False, False] exampleArena) [False, False, False])
       = Some (slicedArenaAfterEvent, [kTrue, kFalse, kFalse], [True, True, True])
   \<and> 2 < length exampleConfig
   \<and> (\<exists>trackers' cache'.
         isConditionMetSlicedTimes (Suc 0) exampleSlicedRule exampleCombinationRule
           [''N0'' \<mapsto> [(''uid'', ''8'')]] 2 (slicedArenaAfterEvent, [kTrue, kFalse, kFalse])
          = Some (trackers', cache')
         \<and> cache' ! 2 = kFalse
         \<and> map (\<lambda>n. fst (isConditionMet n)) trackers' = [kTrue, kFalse, kFalse])
   \<and> (\<exists>trackers' cache'.
         isConditionMetSlicedTimes (Suc 5) exampleSlicedRule exampleCombinationRule
           [''N0'' \<mapsto> [(''uid'', ''8'')]] 2 (slicedArenaAfterEvent, [kTrue, kFalse, kFalse])
          = Some (trackers', cache')
         \<and> cache' ! 2 = kFalse
         \<and> map (\<lambda>n. fst (isConditionMet n)) trackers' = [kTrue, kFalse, kFalse])"
proof -
  have l: "length [False, False, False] = length exampleConfig"
    and l': "length [True, False, False] = length exampleConfig"
    and i: "2 < length exampleConfig"
    by (simp_all add: exampleConfig_def)
  let ?q = "\<lambda>k. isConditionMetSlicedTimes (Suc k) exampleSlicedRule exampleCombinationRule
           [''N0'' \<mapsto> [(''uid'', ''8'')]] 2 (slicedArenaAfterEvent, [kTrue, kFalse, kFalse])"
  from C5_sliced_query_idempotent[OF exampleConfig_init_arena l l' example_sliced_first_pass i,
         of exampleSlicedRule "[''N0'' \<mapsto> [(''uid'', ''8'')]]"]
  obtain answer where
    a: "\<And>k. \<exists>trackers' cache'. ?q k = Some (trackers', cache') \<and> cache' ! 2 = answer
           \<and> map (\<lambda>n. fst (isConditionMet n)) trackers'
               = map (\<lambda>n. fst (isConditionMet n)) slicedArenaAfterEvent"
    by blast
  have once: "?q 0 = Some (slicedArenaAfterEvent, [kFalse, kTrue, kFalse])"
    using example_query
    by (simp add: slicedArenaAfterEvent_def numeral_eq_Suc del: isConditionMetSliced.simps)
  from a[of 0] once have ans: "answer = kFalse" by (auto simp del: isConditionMetSliced.simps)
  have agg: "map (\<lambda>n. fst (isConditionMet n)) slicedArenaAfterEvent = [kTrue, kFalse, kFalse]"
    by (simp add: slicedArenaAfterEvent_def isConditionMet_def)
  from a[of 0] a[of 5] show ?thesis
    unfolding ans agg using exampleConfig_init_arena l l' example_sliced_first_pass i
    by (intro conjI)
qed

subsection \<open>Name and index\<close>

lemma initFrame_names:
  assumes "initFrame (t, s) (t', s')" "length t' = length t"
  shows "map mName t' = map mName t \<and> map mIndex t' = map mIndex t"
  using assms by (auto simp: initFrame_def intro!: nth_equalityI)

lemma isConditionMetSliced_arena:
  "isConditionMetSliced fuel slr cr p i (t, c) = Some (t', c') \<Longrightarrow> t' = t"
proof (induction fuel arbitrary: i c t' c')
  case 0
  then show ?case by simp
next
  case (Suc fuel)
  have children: "t' = t"
    if "queryChildren fuel slr cr p cs (t, c) = Some (t', c')" for cs c t' c'
    using that
  proof (induction cs arbitrary: c)
    case Nil
    then show ?case by simp
  next
    case (Cons j cs)
    from Cons.prems obtain t1 c1 where
      a: "isConditionMetSliced fuel slr cr p j (t, c) = Some (t1, c1)"
      and b: "queryChildren fuel slr cr p cs (t1, c1) = Some (t', c')"
      by (auto split: option.splits)
    from Suc.IH[OF a] b Cons.IH show ?case by simp
  qed
  from Suc.prems show ?case
    by (auto split: if_splits Variant.splits option.splits dest: children)
qed

lemma map_update_same: "f y = f (xs ! i) \<Longrightarrow> map f (xs[i := y]) = map f xs"
proof (cases "i < length xs")
  case True
  assume "f y = f (xs ! i)"
  with True have "(map f xs)[i := f y] = map f xs" by (simp add: list_update_same_conv)
  then show ?thesis by (simp add: map_update)
next
  case False
  then show ?thesis by (simp add: list_update_beyond)
qed

lemma evaluateCondition_names:
  assumes "evaluateCondition sr cr v written i (t, cache, changed) = Some (t', cache', changed')"
  shows "map mName t' = map mName t \<and> map mIndex t' = map mIndex t"
proof -
  from assms obtain x where "t' = t[i := (t ! i)\<lparr> mNonSlicedConditionState := x \<rparr>]"
    by (auto simp: evaluateCondition_def split: if_splits option.splits)
  then show ?thesis by (simp add: map_update_same)
qed

text \<open>
  C9. Name and index of a node are fixed at construction. \<open>init\<close> on any node,
  \<open>evaluateCondition\<close>, the query with parameters, the argument-free
  \<open>isConditionMet()\<close>, \<open>getLogTrackerIndex()\<close> and \<open>setSliced\<close> leave the
  name and the index of every node of the arena as they were; after initialization of
  the batch, with success or failure, every node still has the name of its descriptor and
  its position in the arena as index.
\<close>

theorem C9_name_and_index_immutable:
  "(init fuel cfg cm mm i (t, s) = Some (b, (t1, s1))
      \<longrightarrow> map mName t1 = map mName t \<and> map mIndex t1 = map mIndex t)
   \<and> (initConditions cfg cm mm = Some (b', (t2, s2))
      \<longrightarrow> (\<forall>k < length cfg. mName (t2 ! k) = cname (cfg ! k) \<and> mIndex (t2 ! k) = int k))
   \<and> (evaluateCondition sr cr v written i (t, cache, changed) = Some (t3, cache3, changed3)
      \<longrightarrow> map mName t3 = map mName t \<and> map mIndex t3 = map mIndex t)
   \<and> (isConditionMetSliced fuel slr cr conditionParameters i (t, cache) = Some (t4, cache4)
      \<longrightarrow> map mName t4 = map mName t \<and> map mIndex t4 = map mIndex t)
   \<and> mName (snd (isConditionMet this)) = mName this
   \<and> mIndex (snd (isConditionMet this)) = mIndex this
   \<and> mName (snd (getLogTrackerIndex this)) = mName this
   \<and> mIndex (snd (getLogTrackerIndex this)) = mIndex this
   \<and> mName (setSliced sliced this) = mName this
   \<and> mIndex (setSliced sliced this) = mIndex this"
proof (intro conjI impI)
  assume a: "init fuel cfg cm mm i (t, s) = Some (b, (t1, s1))"
  from initFrame_names[OF init_frame[OF a]] init_length[OF a]
  show "map mName t1 = map mName t" "map mIndex t1 = map mIndex t" by simp_all
next
  assume "initConditions cfg cm mm = Some (b', (t2, s2))"
  then show "\<forall>k < length cfg. mName (t2 ! k) = cname (cfg ! k) \<and> mIndex (t2 ! k) = int k"
    using initConditions_names by blast
next
  assume a: "evaluateCondition sr cr v written i (t, cache, changed) = Some (t3, cache3, changed3)"
  from evaluateCondition_names[OF a]
  show "map mName t3 = map mName t" "map mIndex t3 = map mIndex t" by simp_all
next
  assume a: "isConditionMetSliced fuel slr cr conditionParameters i (t, cache) = Some (t4, cache4)"
  from isConditionMetSliced_arena[OF a]
  show "map mName t4 = map mName t" "map mIndex t4 = map mIndex t" by simp_all
qed (simp_all add: isConditionMet_def getLogTrackerIndex_def setSliced_def)

lemma example_init_node:
  "init 4 exampleConfig exampleConditionMap exampleMatcherMap (Suc 0)
     (buildArena exampleConfig, [False, False, False])
   = Some (True,
       ([\<lparr>mName = ''N0'', mIndex = 0, mInitialized = True, mTrackerIndex = {0},
           mNonSlicedConditionState = kUnknown, mSliced = False, mVariant = Atomic [0]\<rparr>,
         \<lparr>mName = ''N1'', mIndex = 1, mInitialized = True, mTrackerIndex = {0},
           mNonSlicedConditionState = kUnknown, mSliced = False,
           mVariant = Combinational opNOT [0]\<rparr>,
         \<lparr>mName = ''N2'', mIndex = 2, mInitialized = False, mTrackerIndex = {},
           mNonSlicedConditionState = kUnknown, mSliced = False,
           mVariant = Combinational opAND []\<rparr>],
        [False, False, False]))"
  by (simp add: eval_init_simps exampleConfig_def exampleConditionMap_def exampleMatcherMap_def)

lemma example_evaluate_node:
  "evaluateCondition exampleSimpleRule exampleCombinationRule [kMatched] {} 0
     (exampleArena, [kUnknown, kUnknown, kUnknown], [False, False, False])
   = Some ([(exampleArena ! 0)\<lparr> mNonSlicedConditionState := kTrue \<rparr>,
            exampleArena ! 1, exampleArena ! 2],
           [kTrue, kUnknown, kUnknown], [True, False, False])"
  by (simp add: evaluateCondition_def exampleArena_def exampleSimpleRule_def)

lemma example_query_node:
  "isConditionMetSliced 4 exampleSlicedRule exampleCombinationRule
     [''N0'' \<mapsto> [(''uid'', ''7'')]] (Suc 0) (exampleArena, [kUnknown, kUnknown, kUnknown])
   = Some (exampleArena, [kTrue, kFalse, kUnknown])"
  by (simp add: exampleArena_def exampleSlicedRule_def numeral_eq_Suc)

theorem C9_name_and_index_immutable_witness:
  "init 4 exampleConfig exampleConditionMap exampleMatcherMap (Suc 0)
       (buildArena exampleConfig, [False, False, False]) \<noteq> None
   \<and> map mName (fst (snd (the (init 4 exampleConfig exampleConditionMap exampleMatcherMap (Suc 0)
       (buildArena exampleConfig, [False, False, False]))))) = [''N0'', ''N1'', ''N2'']
   \<and> map mIndex (fst (snd (the (init 4 exampleConfig exampleConditionMap exampleMatcherMap (Suc 0)
       (buildArena exampleConfig, [False, False, False]))))) = [0, 1, 2]
   \<and> initConditions exampleConfig exampleConditionMap exampleMatcherMap
       = Some (True, (exampleArena, [False, False, False]))
   \<and> mName (exampleArena ! 2) = cname (exampleConfig ! 2) \<and> mIndex (exampleArena ! 2) = 2
   \<and> evaluateCondition exampleSimpleRule exampleCombinationRule [kMatched] {} 0
       (exampleArena, [kUnknown, kUnknown, kUnknown], [False, False, False]) \<noteq> None
   \<and> map mName (fst (the (evaluateCondition exampleSimpleRule exampleCombinationRule [kMatched] {} 0
       (exampleArena, [kUnknown, kUnknown, kUnknown], [False, False, False]))))
       = map mName exampleArena
   \<and> isConditionMetSliced 4 exampleSlicedRule exampleCombinationRule
       [''N0'' \<mapsto> [(''uid'', ''7'')]] (Suc 0) (exampleArena, [kUnknown, kUnknown, kUnknown]) \<noteq> None
   \<and> map mIndex (fst (the (isConditionMetSliced 4 exampleSlicedRule exampleCombinationRule
       [''N0'' \<mapsto> [(''uid'', ''7'')]] (Suc 0) (exampleArena, [kUnknown, kUnknown, kUnknown]))))
       = map mIndex exampleArena"
proof -
  let ?t1 = "[\<lparr>mName = ''N0'', mIndex = 0, mInitialized = True, mTrackerIndex = {0},
           mNonSlicedConditionState = kUnknown, mSliced = False, mVariant = Atomic [0]\<rparr>,
         \<lparr>mName = ''N1'', mIndex = 1, mInitialized = True, mTrackerIndex = {0},
           mNonSlicedConditionState = kUnknown, mSliced = False,
           mVariant = Combinational opNOT [0]\<rparr>,
         \<lparr>mName = ''N2'', mIndex = 2, mInitialized = False, mTrackerIndex = {},
           mNonSlicedConditionState = kUnknown, mSliced = False,
           mVariant = Combinational opAND []\<rparr>]"
  let ?t3 = "[(exampleArena ! 0)\<lparr> mNonSlicedConditionState := kTrue \<rparr>,
            exampleArena ! 1, exampleArena ! 2]"
  have names0: "map mName (buildArena exampleConfig) = [''N0'', ''N1'', ''N2'']"
    and idx0: "map mIndex (buildArena exampleConfig) = [0, 1, 2]"
    by (simp_all add: buildArena_def exampleConfig_def newNode_fields enumerate_eq_zip
          upt_rec numeral_eq_Suc)
  have a: "map mName ?t1 = [''N0'', ''N1'', ''N2'']" "map mIndex ?t1 = [0, 1, 2]"
    using C9_name_and_index_immutable
      [where fuel = 4 and cfg = exampleConfig and cm = exampleConditionMap
         and mm = exampleMatcherMap and i = "Suc 0" and t = "buildArena exampleConfig"
         and s = "[False, False, False]" and b = True and ?t1.0 = ?t1
         and ?s1.0 = "[False, False, False]"]
      example_init_node names0 idx0
    by (simp_all del: init.simps)
  have "\<forall>k < length exampleConfig.
          mName (exampleArena ! k) = cname (exampleConfig ! k) \<and> mIndex (exampleArena ! k) = int k"
    using C9_name_and_index_immutable
      [where cfg = exampleConfig and cm = exampleConditionMap and mm = exampleMatcherMap
         and b' = True and ?t2.0 = exampleArena and ?s2.0 = "[False, False, False]",
       THEN conjunct2, THEN conjunct1]
      exampleConfig_init_arena
    by (rule mp)
  then have "2 < length exampleConfig \<longrightarrow>
          mName (exampleArena ! 2) = cname (exampleConfig ! 2) \<and> mIndex (exampleArena ! 2) = int 2"
    by (rule spec)
  then have b: "mName (exampleArena ! 2) = cname (exampleConfig ! 2)" "mIndex (exampleArena ! 2) = 2"
    by (simp_all add: exampleConfig_def)
  have "map mName ?t3 = map mName exampleArena \<and> map mIndex ?t3 = map mIndex exampleArena"
    using C9_name_and_index_immutable
      [where i = 0 and t = exampleArena and sr = exampleSimpleRule
         and cr = exampleCombinationRule and v = "[kMatched]" and written = "{}"
         and cache = "[kUnknown, kUnknown, kUnknown]" and changed = "[False, False, False]"
         and ?t3.0 = ?t3 and ?cache3.0 = "[kTrue, kUnknown, kUnknown]"
         and ?changed3.0 = "[True, False, False]",
       THEN conjunct2, THEN conjunct2, THEN conjunct1]
      example_evaluate_node
    by (rule mp)
  then have c: "map mName ?t3 = map mName exampleArena" by (rule conjunct1)
  show ?thesis
    using a b c exampleConfig_init_arena
    by (simp add: example_init_node example_evaluate_node example_query_node
          del: init.simps isConditionMetSliced.simps)
qed

end
